theory Spec2Isabelle
  imports Main
begin

section \<open>JavaScript data used by the engine\<close>

text \<open>
  The workflow engine is TypeScript. Strings are modelled as \<open>string\<close> (code units
  below 256), arrays as lists, a \<open>Set<string>\<close> as a \<open>string set\<close>. A plain object
  used as a dictionary (\<open>Record<string, T>\<close>) is the list of its own enumerable
  properties in the order in which \<open>Object.values\<close> enumerates them: keys that are
  array indices first, in ascending numeric order, then all other keys in the order of
  their creation. Such an object is created by \<open>{}\<close> and inherits from
  \<open>Object.prototype\<close>: its methods, and the accessor \<open>__proto__\<close>.
\<close>

type_synonym 'a js_record = "(string \<times> 'a) list"

definition digit_char :: "nat \<Rightarrow> char" where
  "digit_char d = char_of (48 + d)"

fun string_of_nat :: "nat \<Rightarrow> string" where
  "string_of_nat n =
     (if n < 10 then [digit_char n] else string_of_nat (n div 10) @ [digit_char (n mod 10)])"

declare string_of_nat.simps [simp del]

definition is_digit :: "char \<Rightarrow> bool" where
  "is_digit c = ((48::nat) \<le> of_char c \<and> of_char c \<le> (57::nat))"

definition parse_nat :: "string \<Rightarrow> nat option" where
  "parse_nat s =
     (if s \<noteq> [] \<and> list_all is_digit s
      then Some (foldl (\<lambda>acc c. 10 * acc + (of_char c - 48)) (0::nat) s) else None)"

text \<open>An array index is the canonical decimal numeral of an integer below \<open>2^32 - 1\<close>.\<close>

definition array_index :: "string \<Rightarrow> nat option" where
  "array_index k =
     (case parse_nat k of
        None \<Rightarrow> None
      | Some n \<Rightarrow> if string_of_nat n = k \<and> int n < 4294967295 then Some n else None)"

fun js_replace :: "string \<Rightarrow> 'a \<Rightarrow> 'a js_record \<Rightarrow> 'a js_record" where
  "js_replace k v [] = []"
| "js_replace k v ((k', v') # rest) =
     (if k' = k then (k, v) # rest else (k', v') # js_replace k v rest)"

fun insert_index :: "nat \<Rightarrow> string \<Rightarrow> 'a \<Rightarrow> 'a js_record \<Rightarrow> 'a js_record" where
  "insert_index n k v [] = [(k, v)]"
| "insert_index n k v ((k', v') # rest) =
     (case array_index k' of
        Some m \<Rightarrow> if m < n then (k', v') # insert_index n k v rest
                  else (k, v) # (k', v') # rest
      | None \<Rightarrow> (k, v) # (k', v') # rest)"

text \<open>
  Writing an own property: an existing property keeps its place; a new one is placed
  by the enumeration order above.
\<close>

definition define_property :: "'a js_record \<Rightarrow> string \<Rightarrow> 'a \<Rightarrow> 'a js_record" where
  "define_property obj k v =
     (if k \<in> fst ` set obj then js_replace k v obj
      else case array_index k of
             Some n \<Rightarrow> insert_index n k v obj
           | None \<Rightarrow> obj @ [(k, v)])"

text \<open>
  \<open>obj[k] = v\<close> on a plain object. An assignment to \<open>__proto__\<close>, unless the object
  owns a property of that name, runs the setter inherited from \<open>Object.prototype\<close>
  and creates no property: the setter ignores a value that is not an object, and makes
  an object the new prototype (followed in \<open>adjacency_table\<close> below, where the engine
  reads through it). Every other key becomes an own property, also when
  \<open>Object.prototype\<close> has a method of that name.
\<close>

definition js_set :: "'a js_record \<Rightarrow> string \<Rightarrow> 'a \<Rightarrow> 'a js_record" where
  "js_set obj k v =
     (if k = ''__proto__'' \<and> k \<notin> fst ` set obj then obj else define_property obj k v)"

text \<open>
  The own property \<open>k\<close> of \<open>obj\<close> is \<open>map_of obj k\<close>. Where that is \<open>None\<close>,
  \<open>obj[k]\<close> is \<open>undefined\<close> or a member inherited from the prototype.
\<close>

definition js_values :: "'a js_record \<Rightarrow> 'a list" where
  "js_values obj = map snd obj"

text \<open>
  \<open>Array.prototype.indexOf\<close> and \<open>Array.prototype.slice\<close> with one argument; a
  negative start counts from the end.
\<close>

fun first_index :: "'a list \<Rightarrow> 'a \<Rightarrow> nat" where
  "first_index [] x = 0"
| "first_index (y # ys) x = (if y = x then 0 else Suc (first_index ys x))"

definition indexOf :: "'a list \<Rightarrow> 'a \<Rightarrow> int" where
  "indexOf xs x = (if x \<in> set xs then int (first_index xs x) else - 1)"

definition slice :: "int \<Rightarrow> 'a list \<Rightarrow> 'a list" where
  "slice start xs =
     (if start < 0 then drop (nat (max (int (length xs) + start) 0)) xs
      else drop (nat start) xs)"

text \<open>
  Thrown values: an error, given by its constructor and its message, or a value that
  is not an \<open>Error\<close>, given by the text that \<open>String\<close> prints for it. \<open>message\<close>
  is what every \<open>catch\<close> of the engine extracts:
  \<open>error instanceof Error ? error.message : String(error)\<close>.
\<close>

datatype js_error =
    Error string
  | TypeError string
  | ReferenceError string
  | SyntaxError string
  | AxiosError string
  | NonError string

fun message :: "js_error \<Rightarrow> string" where
  "message (Error m) = m"
| "message (TypeError m) = m"
| "message (ReferenceError m) = m"
| "message (SyntaxError m) = m"
| "message (AxiosError m) = m"
| "message (NonError m) = m"

section \<open>Graph model (types)\<close>

datatype http_method = GET | POST | PUT | DELETE | PATCH

record api_node_data =
  method' :: http_method
  url :: string
  headers :: "string js_record"
  body :: string
  useCorsProxy :: bool

text \<open>
  \<open>NodeData.type\<close> and \<open>NodeData.data\<close> are typed independently of each other, so a
  node may carry the configuration of another kind. \<open>OtherType\<close> stands for a
  \<open>type\<close> string outside the three known kinds, which reaches the \<open>default\<close> branch
  of the dispatch. The fields \<open>position\<close>, \<open>status\<close>, \<open>output\<close>, \<open>error\<close> and
  \<open>logs\<close> of a node are never read by the engine and are left out.
\<close>

datatype node_type = Api | Transform | Output | OtherType string

datatype node_data =
    ApiNodeData api_node_data
  | TransformNodeData string
  | OutputNodeData

record node =
  node_id :: string
  node_type :: node_type
  node_data :: node_data

record edge =
  edge_id :: string
  source :: string
  target :: string

record graph =
  nodes :: "node list"
  edges :: "edge list"

section \<open>Cycle detection\<close>

record dfs_state =
  visited :: "string set"
  recursionStack :: "string set"
  cycles :: "string list"

text \<open>
  \<open>dfs\<close> is the inner function of \<open>detectCycles\<close>; the three captured variables are
  passed as a state and returned updated. \<open>dfs_edges\<close> is its \<open>for\<close> loop over the
  outgoing edges, which leaves the function at the first \<open>true\<close>.
\<close>

function dfs :: "edge list \<Rightarrow> string \<Rightarrow> string list \<Rightarrow> dfs_state \<Rightarrow> bool \<times> dfs_state"
  and dfs_edges ::
    "edge list \<Rightarrow> string \<Rightarrow> string list \<Rightarrow> edge list \<Rightarrow> dfs_state \<Rightarrow> bool \<times> dfs_state"
where
  "dfs es nodeId path st =
     (if nodeId \<in> recursionStack st
      then (True, st\<lparr>cycles := cycles st @ slice (indexOf path nodeId) path\<rparr>)
      else if nodeId \<in> visited st then (False, st)
      else
        (let r = dfs_edges es nodeId path (filter (\<lambda>e. source e = nodeId) es)
                   (st\<lparr>visited := insert nodeId (visited st),
                       recursionStack := insert nodeId (recursionStack st)\<rparr>)
         in if fst r then (True, snd r)
            else (False, (snd r)\<lparr>recursionStack := recursionStack (snd r) - {nodeId}\<rparr>)))"
| "dfs_edges es nodeId path [] st = (False, st)"
| "dfs_edges es nodeId path (e # rest) st =
     (let r = dfs es (target e) (path @ [nodeId]) st
      in if fst r then (True, snd r) else dfs_edges es nodeId path rest (snd r))"
  by pat_completeness auto

text \<open>The loop of \<open>detectCycles\<close> over \<open>graph.nodes\<close>; the result of \<open>dfs\<close> is dropped.\<close>

fun dfs_roots :: "edge list \<Rightarrow> node list \<Rightarrow> dfs_state \<Rightarrow> dfs_state" where
  "dfs_roots es [] st = st"
| "dfs_roots es (n # ns) st =
     dfs_roots es ns (if node_id n \<notin> visited st then snd (dfs es (node_id n) [] st) else st)"

definition detectCycles :: "graph \<Rightarrow> string list" where
  "detectCycles g =
     cycles (dfs_roots (edges g) (nodes g) \<lparr>visited = {}, recursionStack = {}, cycles = []\<rparr>)"

section \<open>Topological sort\<close>

text \<open>
  The in-degree table holds JavaScript numbers. Reading a key that the table does not
  own gives \<open>undefined\<close> or an inherited member; \<open>++\<close> and \<open>--\<close> turn either into
  \<open>NaN\<close>, which stays \<open>NaN\<close> and is never \<open>=== 0\<close>. The write goes through
  \<open>js_set\<close>, so that the in-degree of a node called \<open>__proto__\<close> is never stored.
\<close>

datatype number = Num int | NaN

fun increment :: "number option \<Rightarrow> number" where
  "increment (Some (Num n)) = Num (n + 1)"
| "increment _ = NaN"

fun decrement :: "number option \<Rightarrow> number" where
  "decrement (Some (Num n)) = Num (n - 1)"
| "decrement _ = NaN"

text \<open>
  The adjacency table holds arrays, which are objects:
  \<open>adjacencyList['__proto__'] = []\<close> makes the new array the prototype of the table
  and creates no property. \<open>prototype\<close> is that array, \<open>None\<close> while the prototype is
  still \<open>Object.prototype\<close>.
\<close>

record adjacency_table =
  own_lists :: "string list js_record"
  prototype :: "string list option"

text \<open>The property names of \<open>Object.prototype\<close> and of \<open>Array.prototype\<close> (ECMAScript 2023).\<close>

definition object_prototype_names :: "string list" where
  "object_prototype_names =
     [''constructor'', ''__defineGetter__'', ''__defineSetter__'', ''hasOwnProperty'',
      ''__lookupGetter__'', ''__lookupSetter__'', ''isPrototypeOf'', ''propertyIsEnumerable'',
      ''toString'', ''valueOf'', ''toLocaleString'']"

definition array_prototype_names :: "string list" where
  "array_prototype_names =
     [''at'', ''concat'', ''copyWithin'', ''fill'', ''find'', ''findIndex'', ''findLast'',
      ''findLastIndex'', ''lastIndexOf'', ''pop'', ''push'', ''reverse'', ''shift'', ''unshift'',
      ''slice'', ''sort'', ''splice'', ''includes'', ''indexOf'', ''join'', ''keys'', ''entries'',
      ''values'', ''forEach'', ''filter'', ''flat'', ''flatMap'', ''map'', ''every'', ''some'',
      ''reduce'', ''reduceRight'', ''toReversed'', ''toSorted'', ''toSpliced'', ''with'']"

text \<open>
  What \<open>adjacencyList[k]\<close> evaluates to: an array owned by the table; the array that
  is the prototype; one of its elements, a string, read through the prototype; another
  inherited member (a function, a number or \<open>Object.prototype\<close>); or \<open>undefined\<close>.
\<close>

datatype slot =
    Array "string list"
  | Prototype_array "string list"
  | Element string
  | Member
  | Undefined

definition adjacency_read :: "adjacency_table \<Rightarrow> string \<Rightarrow> slot" where
  "adjacency_read adj k =
     (case map_of (own_lists adj) k of
        Some targets \<Rightarrow> Array targets
      | None \<Rightarrow>
          (case prototype adj of
             None \<Rightarrow>
               if k = ''__proto__'' \<or> k \<in> set object_prototype_names then Member else Undefined
           | Some inherited \<Rightarrow>
               if k = ''__proto__'' then Prototype_array inherited
               else case array_index k of
                      Some i \<Rightarrow> if i < length inherited then Element (inherited ! i) else Undefined
                    | None \<Rightarrow>
                        if k = ''length'' \<or> k \<in> set array_prototype_names \<or>
                           k \<in> set object_prototype_names
                        then Member else Undefined))"

text \<open>\<open>adjacencyList[k] = []\<close>\<close>

definition adjacency_init :: "adjacency_table \<Rightarrow> string \<Rightarrow> adjacency_table" where
  "adjacency_init adj k =
     (if k = ''__proto__'' \<and> k \<notin> fst ` set (own_lists adj) then adj\<lparr>prototype := Some []\<rparr>
      else adj\<lparr>own_lists := define_property (own_lists adj) k []\<rparr>)"

text \<open>
  \<open>adjacencyList[k].push(t)\<close> changes the array in place, and throws a \<open>TypeError\<close>
  when \<open>adjacencyList[k]\<close> is not an array.
\<close>

definition adjacency_push :: "adjacency_table \<Rightarrow> string \<Rightarrow> string \<Rightarrow> js_error + adjacency_table" where
  "adjacency_push adj k t =
     (case adjacency_read adj k of
        Array targets \<Rightarrow> Inr (adj\<lparr>own_lists := js_replace k (targets @ [t]) (own_lists adj)\<rparr>)
      | Prototype_array inherited \<Rightarrow> Inr (adj\<lparr>prototype := Some (inherited @ [t])\<rparr>)
      | Undefined \<Rightarrow> Inl (TypeError ''Cannot read properties of undefined (reading 'push')'')
      | _ \<Rightarrow> Inl (TypeError ''adjacencyList[edge.source].push is not a function''))"

text \<open>
  The values that \<open>for (const neighbor of adjacencyList[k])\<close> runs through: the
  elements of an array, the characters of a string; anything else is not iterable.
\<close>

definition adjacency_neighbors :: "adjacency_table \<Rightarrow> string \<Rightarrow> js_error + string list" where
  "adjacency_neighbors adj k =
     (case adjacency_read adj k of
        Array targets \<Rightarrow> Inr targets
      | Prototype_array inherited \<Rightarrow> Inr inherited
      | Element s \<Rightarrow> Inr (map (\<lambda>c. [c]) s)
      | Member \<Rightarrow> Inl (TypeError ''adjacencyList[current] is not iterable'')
      | Undefined \<Rightarrow>
          Inl (TypeError ''undefined is not iterable (cannot read property Symbol(Symbol.iterator))''))"

text \<open>First loop: every node gets in-degree 0 and an empty adjacency list.\<close>

fun init_tables ::
  "node list \<Rightarrow> number js_record \<times> adjacency_table \<Rightarrow> number js_record \<times> adjacency_table" where
  "init_tables [] tables = tables"
| "init_tables (n # ns) (inDegree, adjacencyList) =
     init_tables ns (js_set inDegree (node_id n) (Num 0), adjacency_init adjacencyList (node_id n))"

text \<open>Second loop, over the edges.\<close>

fun add_edges ::
  "edge list \<Rightarrow> number js_record \<times> adjacency_table
     \<Rightarrow> js_error + number js_record \<times> adjacency_table" where
  "add_edges [] tables = Inr tables"
| "add_edges (e # es) (inDegree, adjacencyList) =
     (case adjacency_push adjacencyList (source e) (target e) of
        Inl err \<Rightarrow> Inl err
      | Inr adjacencyList' \<Rightarrow>
          add_edges es
            (js_set inDegree (target e) (increment (map_of inDegree (target e))), adjacencyList'))"

text \<open>The inner \<open>for\<close> loop of Kahn's algorithm over the neighbours of \<open>current\<close>.\<close>

fun visit_neighbors ::
  "string list \<Rightarrow> number js_record \<times> string list \<Rightarrow> number js_record \<times> string list" where
  "visit_neighbors [] st = st"
| "visit_neighbors (neighbor # rest) (inDegree, queue) =
     (let inDegree' = js_set inDegree neighbor (decrement (map_of inDegree neighbor))
      in visit_neighbors rest
           (inDegree', if map_of inDegree' neighbor = Some (Num 0) then queue @ [neighbor] else queue))"

text \<open>The \<open>while (queue.length > 0)\<close> loop; \<open>queue.shift()\<close> takes the head.\<close>

function kahn_loop ::
  "adjacency_table \<Rightarrow> number js_record \<Rightarrow> string list \<Rightarrow> string list
     \<Rightarrow> js_error + string list" where
  "kahn_loop adjacencyList inDegree [] result = Inr result"
| "kahn_loop adjacencyList inDegree (current # queue) result =
     (case adjacency_neighbors adjacencyList current of
        Inl err \<Rightarrow> Inl err
      | Inr neighbors \<Rightarrow>
          kahn_loop adjacencyList
            (fst (visit_neighbors neighbors (inDegree, queue)))
            (snd (visit_neighbors neighbors (inDegree, queue)))
            (result @ [current]))"
  by pat_completeness auto

definition topologicalSort :: "graph \<Rightarrow> js_error + string list" where
  "topologicalSort g =
     (case add_edges (edges g)
             (init_tables (nodes g) ([], \<lparr>own_lists = [], prototype = None\<rparr>)) of
        Inl err \<Rightarrow> Inl err
      | Inr (inDegree, adjacencyList) \<Rightarrow>
          (case kahn_loop adjacencyList inDegree
                  (map node_id (filter (\<lambda>n. map_of inDegree (node_id n) = Some (Num 0)) (nodes g)))
                  [] of
             Inl err \<Rightarrow> Inl err
           | Inr result \<Rightarrow>
               if length result \<noteq> length (nodes g) then Inl (Error ''Graph contains cycles'')
               else Inr result))"

text \<open>
  Entries of the in-degree table that are still positive: with the queue length they
  bound the number of iterations of the \<open>while\<close> loop.
\<close>

fun is_pos :: "number \<Rightarrow> bool" where
  "is_pos (Num n) = (0 < n)"
| "is_pos NaN = False"

definition pending :: "number js_record \<Rightarrow> nat" where
  "pending d = length (filter (\<lambda>p. is_pos (snd p)) d)"

section \<open>JavaScript values and the host runtime\<close>

text \<open>
  Node outputs are arbitrary JavaScript values. The model has the JSON-like values,
  \<open>undefined\<close>, and two opaque kinds: \<open>JFun\<close> for a callable (\<open>typeof\<close> is
  \<open>function\<close>) and \<open>JHost\<close> for a host object that is not callable (\<open>Math\<close>,
  \<open>JSON\<close>, the lodash module). An object carries its own enumerable properties in
  enumeration order. A number is \<open>JNum n\<close> when its value is the integer \<open>n\<close>
  (negative zero behaves as \<open>0\<close> in everything the engine does), \<open>JNaN\<close>,
  \<open>JInfinity positive\<close>, or \<open>JDecimal s\<close>: a finite number that is not an
  integer, named by the text \<open>s\<close> that \<open>String\<close> prints for it.
\<close>

datatype jsvalue =
    JUndefined
  | JNull
  | JBool bool
  | JNum int
  | JNaN
  | JInfinity bool
  | JDecimal string
  | JStr string
  | JArr "jsvalue list"
  | JObj "(string \<times> jsvalue) list"
  | JFun string
  | JHost string

text \<open>
  Result of running source text through the engine's \<open>Function\<close> constructor: the
  text does not compile; the call throws (the string is the message that the
  \<open>catch\<close> of \<open>safeEval\<close> extracts); the call returns a value.
\<close>

datatype eval_outcome =
    SyntaxFailure string
  | Thrown string
  | Value jsvalue

text \<open>
  The expression receives the first output by reference and can change, in place,
  every object it reaches from there, among them the other outputs that share objects
  with the first. An \<open>effect\<close> maps the values that the context holds before the call
  to the values it holds afterwards.
\<close>

type_synonym effect = "jsvalue list \<Rightarrow> jsvalue list"

record response =
  status :: int
  statusText :: string
  resp_headers :: jsvalue
  resp_data :: jsvalue

record axios_config =
  cfg_method :: http_method
  cfg_url :: string
  cfg_headers :: "string js_record"
  cfg_data :: "string option"
  cfg_timeout :: int
  validateStatus :: "int \<Rightarrow> bool"

text \<open>
  What the program takes from its host and its libraries, as parameters:
  \<^item> \<open>inherited v k\<close>: the member \<open>k\<close> that \<open>v\<close> has without owning it as an
    enumerable property (prototype chain, built-in members), if any;
  \<^item> \<open>object_to_string v\<close>: \<open>String(v)\<close> for objects, arrays, functions and
    integers beyond \<open>2^53\<close>, \<open>None\<close> when the conversion throws;
  \<^item> \<open>globals x\<close>: the binding of identifier \<open>x\<close> in the global scope, if any;
  \<^item> \<open>engine_eval src data\<close>: the outcome of compiling and calling the sandbox
    function for an expression outside the fragment that is written out below, and
    the effect of the call on the outputs;
  \<^item> \<open>transport cfg\<close>: the network layer under axios, a response or a network-level
    failure (DNS, refused connection, timeout).
\<close>

record runtime =
  inherited :: "jsvalue \<Rightarrow> string \<Rightarrow> jsvalue option"
  object_to_string :: "jsvalue \<Rightarrow> string option"
  globals :: "string \<Rightarrow> jsvalue option"
  engine_eval :: "string \<Rightarrow> jsvalue \<Rightarrow> eval_outcome \<times> effect"
  transport :: "axios_config \<Rightarrow> js_error + response"

fun truthy :: "jsvalue \<Rightarrow> bool" where
  "truthy JUndefined = False"
| "truthy JNull = False"
| "truthy (JBool b) = b"
| "truthy (JNum n) = (n \<noteq> 0)"
| "truthy JNaN = False"
| "truthy (JStr s) = (s \<noteq> [])"
| "truthy _ = True"

text \<open>Values without identity, which nothing can change in place.\<close>

fun is_primitive :: "jsvalue \<Rightarrow> bool" where
  "is_primitive (JArr xs) = False"
| "is_primitive (JObj props) = False"
| "is_primitive (JFun f) = False"
| "is_primitive (JHost h) = False"
| "is_primitive _ = True"

text \<open>\<open>typeof v === 'object'\<close>\<close>

fun typeof_object :: "jsvalue \<Rightarrow> bool" where
  "typeof_object JNull = True"
| "typeof_object (JArr xs) = True"
| "typeof_object (JObj props) = True"
| "typeof_object (JHost h) = True"
| "typeof_object _ = False"

definition js_number_string :: "int \<Rightarrow> string" where
  "js_number_string n =
     (if n < 0 then CHR ''-'' # string_of_nat (nat (- n)) else string_of_nat (nat n))"

text \<open>
  \<open>String(v)\<close>. An integer up to \<open>2^53\<close> in absolute value prints as its decimal
  numeral. Beyond that \<open>String\<close> prints the shortest digits that read back as the
  same number, and exponent notation from \<open>10^21\<close>: this is left to the host, as is
  the conversion of objects, which goes through their \<open>toString\<close> and may throw.
\<close>

fun js_String :: "runtime \<Rightarrow> jsvalue \<Rightarrow> string option" where
  "js_String rt JUndefined = Some ''undefined''"
| "js_String rt JNull = Some ''null''"
| "js_String rt (JBool b) = Some (if b then ''true'' else ''false'')"
| "js_String rt (JNum n) =
     (if \<bar>n\<bar> \<le> 9007199254740992 then Some (js_number_string n)
      else object_to_string rt (JNum n))"
| "js_String rt JNaN = Some ''NaN''"
| "js_String rt (JInfinity positive) = Some (if positive then ''Infinity'' else ''-Infinity'')"
| "js_String rt (JDecimal s) = Some s"
| "js_String rt (JStr s) = Some s"
| "js_String rt v = object_to_string rt v"

text \<open>
  Own properties that a property read sees: the entries of an object, the elements and
  \<open>length\<close> of an array, the characters and \<open>length\<close> of a string.
\<close>

fun own_property :: "jsvalue \<Rightarrow> string \<Rightarrow> jsvalue option" where
  "own_property (JObj props) key = map_of props key"
| "own_property (JArr xs) key =
     (if key = ''length'' then Some (JNum (int (length xs)))
      else case array_index key of
             Some i \<Rightarrow> if i < length xs then Some (xs ! i) else None
           | None \<Rightarrow> None)"
| "own_property (JStr s) key =
     (if key = ''length'' then Some (JNum (int (length s)))
      else case array_index key of
             Some i \<Rightarrow> if i < length s then Some (JStr [s ! i]) else None
           | None \<Rightarrow> None)"
| "own_property _ key = None"

text \<open>\<open>key in v\<close> holds when this is not \<open>None\<close>; \<open>v[key]\<close> is then its value.\<close>

definition lookup_property :: "runtime \<Rightarrow> jsvalue \<Rightarrow> string \<Rightarrow> jsvalue option" where
  "lookup_property rt v key =
     (case own_property v key of Some x \<Rightarrow> Some x | None \<Rightarrow> inherited rt v key)"

text \<open>\<open>JSON.stringify(v)\<close> is \<open>undefined\<close> exactly for \<open>undefined\<close> and functions.\<close>

fun stringify_undefined :: "jsvalue \<Rightarrow> bool" where
  "stringify_undefined JUndefined = True"
| "stringify_undefined (JFun f) = True"
| "stringify_undefined _ = False"

fun split_on :: "char \<Rightarrow> string \<Rightarrow> string list" where
  "split_on d [] = [[]]"
| "split_on d (c # cs) =
     (if c = d then [] # split_on d cs
      else case split_on d cs of
             x # xs \<Rightarrow> (c # x) # xs
           | [] \<Rightarrow> [[c]])"

text \<open>
  What \<open>String.prototype.trim\<close> strips, among the code units below 256: tab, line
  feed, vertical tab, form feed, carriage return, space and no-break space.
\<close>

definition is_space :: "char \<Rightarrow> bool" where
  "is_space c =
     (c \<in> set [CHR 0x09, CHR 0x0A, CHR 0x0B, CHR 0x0C, CHR 0x0D, CHR '' '', CHR 0xA0])"

definition trim :: "string \<Rightarrow> string" where
  "trim s = rev (dropWhile is_space (rev (dropWhile is_space s)))"

fun join_with :: "string \<Rightarrow> string list \<Rightarrow> string" where
  "join_with sep [] = []"
| "join_with sep [x] = x"
| "join_with sep (x # y # ys) = x @ sep @ join_with sep (y # ys)"

definition starts_with :: "string \<Rightarrow> string \<Rightarrow> bool" where
  "starts_with p s = (take (length p) s = p)"

section \<open>Variable interpolation\<close>

text \<open>
  One attempt of the pattern \<open>/\{\{([^}]+)\}\}/\<close> at the start of a string: the
  captured path and the text after the token. The greedy class takes the whole run
  of characters other than \<open>}\<close>; giving characters back can never help, since the next
  character would still not be \<open>}\<close>.
\<close>

fun match_token :: "string \<Rightarrow> (string \<times> string) option" where
  "match_token (a # b # t) =
     (if a = CHR ''{'' \<and> b = CHR ''{''
      then (let p = takeWhile (\<lambda>c. c \<noteq> CHR ''}'') t;
                r = dropWhile (\<lambda>c. c \<noteq> CHR ''}'') t
            in if p \<noteq> [] \<and> take 2 r = ''}}'' then Some (p, drop 2 r) else None)
      else None)"
| "match_token _ = None"

text \<open>
  \<open>template.replace(pattern, callback)\<close> with the global flag: the matches are found
  from left to right, the search resuming after each match; the callback receives the
  matched text and the captured group.
\<close>

function replace_tokens :: "(string \<Rightarrow> string \<Rightarrow> string) \<Rightarrow> string \<Rightarrow> string" where
  "replace_tokens callback [] = []"
| "replace_tokens callback (c # cs) =
     (case match_token (c # cs) of
        Some (p, rest) \<Rightarrow> callback (''{{'' @ p @ ''}}'') p @ replace_tokens callback rest
      | None \<Rightarrow> c # replace_tokens callback cs)"
  by pat_completeness auto

text \<open>The \<open>reduce\<close> that binds the i-th output to \<open>node<i>\<close>.\<close>

fun number_outputs :: "jsvalue list \<Rightarrow> nat \<Rightarrow> jsvalue js_record \<Rightarrow> jsvalue js_record" where
  "number_outputs [] index acc = acc"
| "number_outputs (output # rest) index acc =
     number_outputs rest (Suc index) (js_set acc (''node'' @ string_of_nat index) output)"

definition allData :: "jsvalue js_record \<Rightarrow> jsvalue js_record" where
  "allData nodeOutputs =
     (let acc = number_outputs (js_values nodeOutputs) 0 [];
          firstOutput = (case js_values nodeOutputs of [] \<Rightarrow> JUndefined | v # _ \<Rightarrow> v)
      in if truthy firstOutput then js_set acc ''data'' firstOutput else acc)"

definition getNestedValue :: "runtime \<Rightarrow> jsvalue \<Rightarrow> string \<Rightarrow> jsvalue" where
  "getNestedValue rt obj path =
     foldl (\<lambda>current key.
              if truthy current \<and> typeof_object current
              then (case lookup_property rt current key of Some v \<Rightarrow> v | None \<Rightarrow> JUndefined)
              else JUndefined)
       obj (split_on CHR ''.'' path)"

text \<open>
  The callback of \<open>interpolateVariables\<close>. The \<open>catch\<close> branch is reached when
  \<open>String(value)\<close> throws.
\<close>

definition interpolate_match :: "runtime \<Rightarrow> jsvalue js_record \<Rightarrow> string \<Rightarrow> string \<Rightarrow> string" where
  "interpolate_match rt nodeOutputs match path =
     (let val = getNestedValue rt (JObj (allData nodeOutputs)) (trim path)
      in if val \<noteq> JUndefined
         then (case js_String rt val of Some s \<Rightarrow> s | None \<Rightarrow> match)
         else match)"

definition interpolateVariables :: "runtime \<Rightarrow> string \<Rightarrow> jsvalue js_record \<Rightarrow> string" where
  "interpolateVariables rt template nodeOutputs =
     replace_tokens (interpolate_match rt nodeOutputs) template"

section \<open>Expression evaluation\<close>

definition context_names :: "string list" where
  "context_names =
     [''_'', ''data'', ''Math'', ''JSON'', ''Array'', ''Object'', ''String'', ''Number'',
      ''Boolean'', ''Date'', ''RegExp'']"

text \<open>The values of the context object, in the order of its keys.\<close>

definition context_values :: "jsvalue \<Rightarrow> jsvalue list" where
  "context_values data' =
     [JHost ''lodash/fp'', data', JHost ''Math'', JHost ''JSON'', JFun ''Array'', JFun ''Object'',
      JFun ''String'', JFun ''Number'', JFun ''Boolean'', JFun ''Date'', JFun ''RegExp'']"

text \<open>
  The function built by \<open>new Function(...names, body)\<close> has the names as parameters
  and the global scope as its enclosing scope. The semantics is written out for the
  expressions \<open>x.k1.k2...\<close> (an identifier followed by property reads); every other
  expression goes to \<open>engine_eval\<close>. Words with a meaning of their own in a strict
  function body are not identifiers of the fragment.
\<close>

definition reserved_words :: "string list" where
  "reserved_words =
     [''arguments'', ''await'', ''break'', ''case'', ''catch'', ''class'', ''const'', ''continue'',
      ''debugger'', ''default'', ''delete'', ''do'', ''else'', ''enum'', ''eval'', ''export'',
      ''extends'', ''false'', ''finally'', ''for'', ''function'', ''if'', ''implements'',
      ''import'', ''in'', ''instanceof'', ''interface'', ''let'', ''new'', ''null'', ''package'',
      ''private'', ''protected'', ''public'', ''return'', ''static'', ''super'', ''switch'',
      ''this'', ''throw'', ''true'', ''try'', ''typeof'', ''var'', ''void'', ''while'', ''with'',
      ''yield'']"

definition is_letter :: "char \<Rightarrow> bool" where
  "is_letter c =
     (((65::nat) \<le> of_char c \<and> of_char c \<le> (90::nat)) \<or>
      ((97::nat) \<le> of_char c \<and> of_char c \<le> (122::nat)) \<or> c = CHR ''_'' \<or> c = CHR ''$'')"

definition is_name :: "string \<Rightarrow> bool" where
  "is_name s = (s \<noteq> [] \<and> is_letter (hd s) \<and> list_all (\<lambda>c. is_letter c \<or> is_digit c) s)"

definition parse_member_chain :: "string \<Rightarrow> (string \<times> string list) option" where
  "parse_member_chain expression =
     (case split_on CHR ''.'' expression of
        x # keys \<Rightarrow>
          if is_name x \<and> x \<notin> set reserved_words \<and> list_all is_name keys then Some (x, keys)
          else None
      | [] \<Rightarrow> None)"

text \<open>
  An identifier is a parameter of the function if it is one, a global otherwise. The
  globals \<open>undefined\<close>, \<open>NaN\<close> and \<open>Infinity\<close> exist in every host and cannot be
  redefined.
\<close>

definition resolve_identifier :: "runtime \<Rightarrow> jsvalue \<Rightarrow> string \<Rightarrow> js_error + jsvalue" where
  "resolve_identifier rt data' x =
     (case map_of (zip context_names (context_values data')) x of
        Some v \<Rightarrow> Inr v
      | None \<Rightarrow>
          if x = ''undefined'' then Inr JUndefined
          else if x = ''NaN'' then Inr JNaN
          else if x = ''Infinity'' then Inr (JInfinity True)
          else (case globals rt x of
                  Some v \<Rightarrow> Inr v
                | None \<Rightarrow> Inl (ReferenceError (x @ '' is not defined''))))"

fun read_members :: "runtime \<Rightarrow> jsvalue \<Rightarrow> string list \<Rightarrow> js_error + jsvalue" where
  "read_members rt v [] = Inr v"
| "read_members rt v (k # ks) =
     (if v = JUndefined \<or> v = JNull
      then Inl (TypeError (''Cannot read properties of '' @ the (js_String rt v) @
                           '' (reading '' @ [CHR 0x27] @ k @ [CHR 0x27] @ '')''))
      else read_members rt (case lookup_property rt v k of Some x \<Rightarrow> x | None \<Rightarrow> JUndefined) ks)"

text \<open>
  \<open>safeEval\<close>: the \<open>Function\<close> constructor is called outside the \<open>try\<close>, so a syntax
  error leaves the function as it is; what the call throws is wrapped. The second
  component is the effect of the call on the outputs: an expression of the fragment
  only reads, any other expression has the effect that the engine gives.
\<close>

definition safeEval :: "runtime \<Rightarrow> string \<Rightarrow> jsvalue \<Rightarrow> (js_error + jsvalue) \<times> effect" where
  "safeEval rt expression data' =
     (case parse_member_chain expression of
        Some (x, keys) \<Rightarrow>
          (case resolve_identifier rt data' x of
             Inl err \<Rightarrow> (Inl (Error (''Expression evaluation failed: '' @ message err)), \<lambda>vs. vs)
           | Inr v \<Rightarrow>
               (case read_members rt v keys of
                  Inl err \<Rightarrow>
                    (Inl (Error (''Expression evaluation failed: '' @ message err)), \<lambda>vs. vs)
                | Inr r \<Rightarrow> (Inr r, \<lambda>vs. vs)))
      | None \<Rightarrow>
          (case fst (engine_eval rt expression data') of
             SyntaxFailure m \<Rightarrow> (Inl (SyntaxError m), \<lambda>vs. vs)
           | Thrown m \<Rightarrow>
               (Inl (Error (''Expression evaluation failed: '' @ m)),
                snd (engine_eval rt expression data'))
           | Value v \<Rightarrow> (Inr v, snd (engine_eval rt expression data'))))"

section \<open>Node executors\<close>

datatype log_level = Info | Warn | LogError

text \<open>
  A log entry as the engine hands it to \<open>onLog\<close>: level and message. The \<open>data\<close>
  payload is left out; where computing it can throw, the throw is modelled.
\<close>

type_synonym log_entry = "log_level \<times> string"

datatype node_status = Idle | Running | Success | Failed

record execution_context =
  nodeOutputs :: "jsvalue js_record"
  nodeErrors :: "string js_record"
  nodeStatuses :: "node_status js_record"

text \<open>
  The two callbacks belong to the caller. A call changes the caller's state, on which
  the engine has no hold, and returns or throws: the first component of the result is
  the thrown value, if any. The callbacks are taken to leave the values they are handed
  as they are.
\<close>

type_synonym 's reaction = "js_error option \<times> 's"

record 's callbacks =
  onNodeUpdate :: "string \<Rightarrow> node_status \<Rightarrow> jsvalue option \<Rightarrow> string option \<Rightarrow> 's \<Rightarrow> 's reaction"
  onLog :: "log_entry \<Rightarrow> 's \<Rightarrow> 's reaction"

fun method_name :: "http_method \<Rightarrow> string" where
  "method_name GET = ''GET''"
| "method_name POST = ''POST''"
| "method_name PUT = ''PUT''"
| "method_name DELETE = ''DELETE''"
| "method_name PATCH = ''PATCH''"

fun type_name :: "node_type \<Rightarrow> string" where
  "type_name Api = ''api''"
| "type_name Transform = ''transform''"
| "type_name Output = ''output''"
| "type_name (OtherType t) = t"

text \<open>
  Modelled from the documentation of the axios library, which is not part of the
  repository: the promise resolves with the response when \<open>validateStatus\<close> accepts
  its status code and rejects otherwise; a failure of the network layer rejects.
\<close>

definition axios :: "runtime \<Rightarrow> axios_config \<Rightarrow> js_error + response" where
  "axios rt cfg =
     (case transport rt cfg of
        Inl err \<Rightarrow> Inl err
      | Inr r \<Rightarrow>
          if validateStatus cfg (status r) then Inr r
          else Inl (AxiosError (''Request failed with status code '' @ js_number_string (status r))))"

definition getNodeInputData :: "string \<Rightarrow> execution_context \<Rightarrow> jsvalue" where
  "getNodeInputData nodeId context =
     (case js_values (nodeOutputs context) of [] \<Rightarrow> JNull | v # _ \<Rightarrow> v)"

text \<open>
  The \<open>catch\<close> block shared by the HTTP and the transform executor: it logs the
  message of the caught value behind a prefix and throws the value again, unless the
  log sink throws first.
\<close>

definition log_and_rethrow ::
  "(log_entry \<Rightarrow> 's \<Rightarrow> 's reaction) \<Rightarrow> string \<Rightarrow> js_error \<Rightarrow> 's \<Rightarrow> js_error \<times> 's" where
  "log_and_rethrow onLog' prefix caught s =
     (case onLog' (LogError, prefix @ message caught) s of
        (Some thrown, s') \<Rightarrow> (thrown, s')
      | (None, s') \<Rightarrow> (caught, s'))"

text \<open>
  An executor takes the log sink and the caller's state and returns its result, a value
  or the value it throws, with the caller's state after its calls of the sink.
  \<open>api_request\<close> is the configuration object passed to axios. A node of type
  \<open>api\<close> whose \<open>data\<close> is not an API configuration has no \<open>url\<close>, and the first
  interpolation throws before anything is logged.
\<close>

definition api_request :: "runtime \<Rightarrow> api_node_data \<Rightarrow> execution_context \<Rightarrow> axios_config" where
  "api_request rt d context =
     (let interpolatedUrl = interpolateVariables rt (url d) (nodeOutputs context);
          interpolatedHeaders =
            map (\<lambda>(key, v). (key, interpolateVariables rt v (nodeOutputs context))) (headers d);
          interpolatedBody =
            (if body d \<noteq> [] then Some (interpolateVariables rt (body d) (nodeOutputs context))
             else None);
          finalUrl =
            (if useCorsProxy d \<and> \<not> starts_with ''http://localhost'' interpolatedUrl
             then ''https://cors-anywhere.herokuapp.com/'' @ interpolatedUrl
             else interpolatedUrl)
      in \<lparr>cfg_method = method' d, cfg_url = finalUrl, cfg_headers = interpolatedHeaders,
          cfg_data = interpolatedBody, cfg_timeout = 30000, validateStatus = (\<lambda>code. True)\<rparr>)"

definition executeApiNode ::
  "runtime \<Rightarrow> (log_entry \<Rightarrow> 's \<Rightarrow> 's reaction) \<Rightarrow> node \<Rightarrow> execution_context \<Rightarrow> 's
     \<Rightarrow> (js_error + jsvalue) \<times> 's" where
  "executeApiNode rt onLog' node context s =
     (case node_data node of
        ApiNodeData d \<Rightarrow>
          (case onLog' (Info, ''Making '' @ method_name (method' d) @ '' request to: '' @
                            interpolateVariables rt (url d) (nodeOutputs context)) s of
             (Some thrown, s1) \<Rightarrow> (Inl thrown, s1)
           | (None, s1) \<Rightarrow>
               (case axios rt (api_request rt d context) of
                  Inl err \<Rightarrow>
                    (case log_and_rethrow onLog' ''API call failed: '' err s1 of
                       (thrown, s2) \<Rightarrow> (Inl thrown, s2))
                | Inr r \<Rightarrow>
                    if stringify_undefined (resp_data r)
                    then (case log_and_rethrow onLog' ''API call failed: ''
                                 (TypeError ''Cannot read properties of undefined (reading 'length')'')
                                 s1 of
                            (thrown, s2) \<Rightarrow> (Inl thrown, s2))
                    else (case onLog' (Info, ''API call completed with status: '' @
                                            js_number_string (status r)) s1 of
                            (Some caught, s2) \<Rightarrow>
                              (case log_and_rethrow onLog' ''API call failed: '' caught s2 of
                                 (thrown, s3) \<Rightarrow> (Inl thrown, s3))
                          | (None, s2) \<Rightarrow>
                              (Inr (JObj [(''status'', JNum (status r)),
                                          (''statusText'', JStr (statusText r)),
                                          (''headers'', resp_headers r),
                                          (''data'', resp_data r)]), s2))))
      | _ \<Rightarrow> (Inl (TypeError ''Cannot read properties of undefined (reading 'replace')''), s))"

text \<open>
  What an effect does to the outputs of the context. The expression has no hold on
  the context itself, so the keys stay; a value that is not an object stays as well.
\<close>

definition apply_effect :: "effect \<Rightarrow> jsvalue js_record \<Rightarrow> jsvalue js_record" where
  "apply_effect change outputs =
     (let after = change (js_values outputs)
      in if length after = length outputs
         then map (\<lambda>((key, before), v). (key, if is_primitive before then before else v))
                (zip outputs after)
         else outputs)"

text \<open>
  A node of type \<open>transform\<close> without an expression evaluates the text
  \<open>undefined\<close>. The size of the result is computed for the log with
  \<open>JSON.stringify(result).length\<close>, inside the \<open>try\<close>. The executor also returns
  the context as the evaluation leaves it.
\<close>

definition executeTransformNode ::
  "runtime \<Rightarrow> (log_entry \<Rightarrow> 's \<Rightarrow> 's reaction) \<Rightarrow> node \<Rightarrow> execution_context \<Rightarrow> 's
     \<Rightarrow> (js_error + jsvalue) \<times> execution_context \<times> 's" where
  "executeTransformNode rt onLog' node context s =
     (let expression = (case node_data node of TransformNodeData e \<Rightarrow> e | _ \<Rightarrow> ''undefined'');
          inputData = getNodeInputData (node_id node) context
      in case onLog' (Info, ''Executing transform expression'') s of
           (Some thrown, s1) \<Rightarrow> (Inl thrown, context, s1)
         | (None, s1) \<Rightarrow>
             (let evaluation = safeEval rt expression inputData;
                  context' = context\<lparr>nodeOutputs := apply_effect (snd evaluation) (nodeOutputs context)\<rparr>
              in case fst evaluation of
                   Inl err \<Rightarrow>
                     (case log_and_rethrow onLog' ''Transform failed: '' err s1 of
                        (thrown, s2) \<Rightarrow> (Inl thrown, context', s2))
                 | Inr result \<Rightarrow>
                     if stringify_undefined result
                     then (case log_and_rethrow onLog' ''Transform failed: ''
                                  (TypeError ''Cannot read properties of undefined (reading 'length')'')
                                  s1 of
                             (thrown, s2) \<Rightarrow> (Inl thrown, context', s2))
                     else (case onLog' (Info, ''Transform completed successfully'') s1 of
                             (Some caught, s2) \<Rightarrow>
                               (case log_and_rethrow onLog' ''Transform failed: '' caught s2 of
                                  (thrown, s3) \<Rightarrow> (Inl thrown, context', s3))
                           | (None, s2) \<Rightarrow> (Inr result, context', s2))))"

definition executeOutputNode ::
  "runtime \<Rightarrow> (log_entry \<Rightarrow> 's \<Rightarrow> 's reaction) \<Rightarrow> node \<Rightarrow> execution_context \<Rightarrow> 's
     \<Rightarrow> (js_error + jsvalue) \<times> 's" where
  "executeOutputNode rt onLog' node context s =
     (let inputData = getNodeInputData (node_id node) context
      in case onLog' (Info, ''Output node received data'') s of
           (Some thrown, s1) \<Rightarrow> (Inl thrown, s1)
         | (None, s1) \<Rightarrow> (Inr inputData, s1))"

section \<open>The orchestrator\<close>

text \<open>
  The \<open>switch\<close> on \<open>node.type\<close>: the result of the executor, the context and the
  caller's state after it.
\<close>

definition dispatch ::
  "runtime \<Rightarrow> (log_entry \<Rightarrow> 's \<Rightarrow> 's reaction) \<Rightarrow> node \<Rightarrow> execution_context \<Rightarrow> 's
     \<Rightarrow> (js_error + jsvalue) \<times> execution_context \<times> 's" where
  "dispatch rt onLog' node context s =
     (case node_type node of
        Api \<Rightarrow> (case executeApiNode rt onLog' node context s of (r, s') \<Rightarrow> (r, context, s'))
      | Transform \<Rightarrow> executeTransformNode rt onLog' node context s
      | Output \<Rightarrow> (case executeOutputNode rt onLog' node context s of (r, s') \<Rightarrow> (r, context, s'))
      | OtherType t \<Rightarrow> (Inl (Error (''Unknown node type: '' @ t)), context, s))"

text \<open>
  The \<open>try\<close> block of the loop body. The first component of the result is the value
  thrown inside the block, if any; the others are the context and the caller's state at
  that point.
\<close>

definition try_node ::
  "runtime \<Rightarrow> 's callbacks \<Rightarrow> node \<Rightarrow> execution_context \<times> 's
     \<Rightarrow> js_error option \<times> execution_context \<times> 's" where
  "try_node rt cb node st =
     (let nodeId = node_id node; context = fst st
      in case onNodeUpdate cb nodeId Running None None (snd st) of
           (Some thrown, s1) \<Rightarrow> (Some thrown, context, s1)
         | (None, s1) \<Rightarrow>
             (let c1 = context\<lparr>nodeStatuses := js_set (nodeStatuses context) nodeId Running\<rparr>
              in case onLog cb (Info, ''Executing node: '' @ nodeId @ '' ('' @
                                       type_name (node_type node) @ '')'') s1 of
                   (Some thrown, s2) \<Rightarrow> (Some thrown, c1, s2)
                 | (None, s2) \<Rightarrow>
                     (case dispatch rt (onLog cb) node c1 s2 of
                        (Inl thrown, c2, s3) \<Rightarrow> (Some thrown, c2, s3)
                      | (Inr output, c2, s3) \<Rightarrow>
                          (let c3 = c2\<lparr>nodeOutputs := js_set (nodeOutputs c2) nodeId output,
                                       nodeStatuses := js_set (nodeStatuses c2) nodeId Success\<rparr>
                           in case onNodeUpdate cb nodeId Success (Some output) None s3 of
                                (Some thrown, s4) \<Rightarrow> (Some thrown, c3, s4)
                              | (None, s4) \<Rightarrow>
                                  (case onLog cb (Info, ''Node '' @ nodeId @
                                                        '' completed successfully'') s4 of
                                     (Some thrown, s5) \<Rightarrow> (Some thrown, c3, s5)
                                   | (None, s5) \<Rightarrow> (None, c3, s5))))))"

text \<open>
  The \<open>catch\<close> block of the loop body. A value thrown by one of its two callbacks
  leaves the loop and \<open>executeGraph\<close>.
\<close>

definition catch_node ::
  "'s callbacks \<Rightarrow> string \<Rightarrow> js_error \<Rightarrow> execution_context \<times> 's
     \<Rightarrow> js_error option \<times> execution_context \<times> 's" where
  "catch_node cb nodeId caught st =
     (let errorMessage = message caught;
          context = (fst st)\<lparr>nodeErrors := js_set (nodeErrors (fst st)) nodeId errorMessage,
                             nodeStatuses := js_set (nodeStatuses (fst st)) nodeId Failed\<rparr>
      in case onNodeUpdate cb nodeId Failed None (Some errorMessage) (snd st) of
           (Some thrown, s1) \<Rightarrow> (Some thrown, context, s1)
         | (None, s1) \<Rightarrow>
             (case onLog cb (LogError, ''Node '' @ nodeId @ '' failed: '' @ errorMessage) s1 of
                (Some thrown, s2) \<Rightarrow> (Some thrown, context, s2)
              | (None, s2) \<Rightarrow> (None, context, s2)))"

text \<open>
  One iteration of the \<open>for\<close> loop over the execution order. The first component is
  the value that leaves the loop, if any.
\<close>

definition run_node ::
  "runtime \<Rightarrow> 's callbacks \<Rightarrow> graph \<Rightarrow> string \<Rightarrow> execution_context \<times> 's
     \<Rightarrow> js_error option \<times> execution_context \<times> 's" where
  "run_node rt cb g nodeId st =
     (case find (\<lambda>n. node_id n = nodeId) (nodes g) of
        None \<Rightarrow> (None, st)
      | Some node \<Rightarrow>
          (case try_node rt cb node st of
             (None, st') \<Rightarrow> (None, st')
           | (Some caught, st') \<Rightarrow> catch_node cb nodeId caught st'))"

fun run_nodes ::
  "runtime \<Rightarrow> 's callbacks \<Rightarrow> graph \<Rightarrow> string list \<Rightarrow> execution_context \<times> 's
     \<Rightarrow> js_error option \<times> execution_context \<times> 's" where
  "run_nodes rt cb g [] st = (None, st)"
| "run_nodes rt cb g (nodeId # rest) st =
     (case run_node rt cb g nodeId st of
        (None, st') \<Rightarrow> run_nodes rt cb g rest st'
      | (Some thrown, st') \<Rightarrow> (Some thrown, st'))"

definition empty_context :: execution_context where
  "empty_context = \<lparr>nodeOutputs = [], nodeErrors = [], nodeStatuses = []\<rparr>"

text \<open>
  \<open>executeGraph\<close> returns the context, or the value it throws, together with the
  caller's state after the callbacks issued up to that point.
\<close>

definition executeGraph ::
  "runtime \<Rightarrow> 's callbacks \<Rightarrow> graph \<Rightarrow> 's \<Rightarrow> (js_error + execution_context) \<times> 's" where
  "executeGraph rt cb g s =
     (let found = detectCycles g
      in if found \<noteq> []
         then (Inl (Error (''Graph contains cycles: '' @ join_with '' -> '' found)), s)
         else (case topologicalSort g of
                 Inl err \<Rightarrow> (Inl err, s)
               | Inr executionOrder \<Rightarrow>
                   (case onLog cb
                           (Info, ''Starting execution of '' @ string_of_nat (length (nodes g)) @
                                  '' nodes in order: '' @ join_with '', '' executionOrder) s of
                      (Some thrown, s1) \<Rightarrow> (Inl thrown, s1)
                    | (None, s1) \<Rightarrow>
                        (case run_nodes rt cb g executionOrder (empty_context, s1) of
                           (Some thrown, context, s2) \<Rightarrow> (Inl thrown, s2)
                         | (None, context, s2) \<Rightarrow>
                             (case onLog cb (Info, ''Graph execution completed'') s2 of
                                (Some thrown, s3) \<Rightarrow> (Inl thrown, s3)
                              | (None, s3) \<Rightarrow> (Inr context, s3))))))"

section \<open>Specification predicates and invariants\<close>

definition node_ids :: "graph \<Rightarrow> string list" where
  "node_ids g = map node_id (nodes g)"

definition edges_rel :: "edge list \<Rightarrow> (string \<times> string) set" where
  "edges_rel es = set (map (\<lambda>e. (source e, target e)) es)"

definition edge_rel :: "graph \<Rightarrow> (string \<times> string) set" where
  "edge_rel g = edges_rel (edges g)"

definition in_count :: "edge list \<Rightarrow> string \<Rightarrow> nat" where
  "in_count es v = length (filter (\<lambda>e. target e = v) es)"

definition out_targets :: "edge list \<Rightarrow> string \<Rightarrow> string list" where
  "out_targets es v = map target (filter (\<lambda>e. source e = v) es)"

definition remaining_in :: "edge list \<Rightarrow> string set \<Rightarrow> string \<Rightarrow> nat" where
  "remaining_in es done v = length (filter (\<lambda>e. target e = v \<and> source e \<notin> done) es)"

definition is_num :: "number option \<Rightarrow> bool" where
  "is_num x = (\<exists>n. x = Some (Num n))"

text \<open>The node ids that become keys of the two tables of \<open>topologicalSort\<close>.\<close>

definition keyed_ids :: "graph \<Rightarrow> string set" where
  "keyed_ids g = set (node_ids g) - {''__proto__''}"

definition adj_ok :: "graph \<Rightarrow> adjacency_table \<Rightarrow> bool" where
  "adj_ok g adj \<longleftrightarrow>
     (\<forall>v. map_of (own_lists adj) v =
        (if v \<in> keyed_ids g then Some (out_targets (edges g) v) else None))"

definition kahn_inv :: "graph \<Rightarrow> number js_record \<Rightarrow> string list \<Rightarrow> string list \<Rightarrow> bool" where
  "kahn_inv g d q res \<longleftrightarrow>
     distinct (res @ q) \<and> set (res @ q) \<subseteq> keyed_ids g \<and>
     (\<forall>v\<in>keyed_ids g.
        map_of d v = Some (Num (int (remaining_in (edges g) (set res) v)))) \<and>
     (\<forall>v. v \<notin> keyed_ids g \<longrightarrow> \<not> is_num (map_of d v)) \<and>
     (\<forall>v\<in>keyed_ids g.
        v \<in> set (res @ q) \<longleftrightarrow> remaining_in (edges g) (set res) v = 0) \<and>
     (\<forall>e\<in>set (edges g). target e \<in> set res \<longrightarrow>
        (\<exists>i j. i < j \<and> j < length res \<and> res ! i = source e \<and> res ! j = target e))"

definition well_formed :: "graph \<Rightarrow> bool" where
  "well_formed g \<longleftrightarrow>
     distinct (node_ids g) \<and>
     (\<forall>e\<in>set (edges g). source e \<in> set (node_ids g) \<and> target e \<in> set (node_ids g))"

definition acyclic_graph :: "graph \<Rightarrow> bool" where
  "acyclic_graph g \<longleftrightarrow> acyclic (edge_rel g)"

definition enter :: "string \<Rightarrow> dfs_state \<Rightarrow> dfs_state" where
  "enter nodeId st =
     st\<lparr>visited := insert nodeId (visited st), recursionStack := insert nodeId (recursionStack st)\<rparr>"

definition chain :: "edge list \<Rightarrow> string list \<Rightarrow> bool" where
  "chain es xs \<longleftrightarrow> (\<forall>i. Suc i < length xs \<longrightarrow> (xs ! i, xs ! Suc i) \<in> edges_rel es)"

definition found_cycle :: "edge list \<Rightarrow> dfs_state \<Rightarrow> bool \<times> dfs_state \<Rightarrow> bool" where
  "found_cycle es st r \<longleftrightarrow>
     (fst r \<longrightarrow> cycles (snd r) \<noteq> [] \<and> (\<forall>v\<in>set (cycles (snd r)). (v, v) \<in> (edges_rel es)\<^sup>+)) \<and>
     (\<not> fst r \<longrightarrow> cycles (snd r) = [] \<and> recursionStack (snd r) = recursionStack st)"

definition finished :: "dfs_state \<Rightarrow> string set" where
  "finished st = visited st - recursionStack st"

definition closed_acyclic :: "edge list \<Rightarrow> string set \<Rightarrow> bool" where
  "closed_acyclic es F \<longleftrightarrow>
     (\<forall>e\<in>set es. source e \<in> F \<longrightarrow> target e \<in> F) \<and>
     (\<forall>v\<in>F. (v, v) \<notin> (edges_rel es)\<^sup>+)"

definition explored :: "string set \<Rightarrow> dfs_state \<Rightarrow> edge list \<Rightarrow> bool \<times> dfs_state \<Rightarrow> bool" where
  "explored T st es r \<longleftrightarrow>
     (\<not> fst r \<longrightarrow>
        recursionStack (snd r) = recursionStack st \<and> visited st \<subseteq> visited (snd r) \<and>
        closed_acyclic es (finished (snd r)) \<and> T \<subseteq> finished (snd r))"

definition test_node :: "string \<Rightarrow> node_type \<Rightarrow> node" where
  "test_node i t = \<lparr>node_id = i, node_type = t, node_data = OutputNodeData\<rparr>"

definition test_edge :: "string \<Rightarrow> string \<Rightarrow> edge" where
  "test_edge s t = \<lparr>edge_id = s @ ''-'' @ t, source = s, target = t\<rparr>"

definition test_chain :: graph where
  "test_chain =
     \<lparr>nodes = [test_node ''1'' Api, test_node ''2'' Transform, test_node ''3'' Output],
      edges = [test_edge ''1'' ''2'', test_edge ''2'' ''3'']\<rparr>"

definition test_cycle :: graph where
  "test_cycle =
     \<lparr>nodes = [test_node ''1'' Api, test_node ''2'' Transform, test_node ''3'' Output],
      edges = [test_edge ''1'' ''2'', test_edge ''2'' ''3'', test_edge ''3'' ''1'']\<rparr>"

text \<open>
  Two graphs without a cycle that have a node called \<open>__proto__\<close>, and a graph in
  which the nodes 1 and 2 form a cycle that 3 and 4 lead into.
\<close>

definition proto_graph :: graph where
  "proto_graph =
     \<lparr>nodes = [test_node ''__proto__'' Api, test_node ''2'' Output],
      edges = [test_edge ''__proto__'' ''2'']\<rparr>"

definition proto_single :: graph where
  "proto_single = \<lparr>nodes = [test_node ''__proto__'' Output], edges = []\<rparr>"

definition stale_graph :: graph where
  "stale_graph =
     \<lparr>nodes = [test_node ''1'' Api, test_node ''2'' Transform, test_node ''3'' Api,
               test_node ''4'' Output],
      edges = [test_edge ''1'' ''2'', test_edge ''2'' ''1'', test_edge ''3'' ''4'',
               test_edge ''4'' ''1'']\<rparr>"

section \<open>Conditions on the collaborators\<close>

text \<open>
  A log sink, or both callbacks, that return normally from every call; callbacks that
  return normally when a node is reported successful; a host in which no expression
  changes the outputs in place.
\<close>

definition sink_returns :: "(log_entry \<Rightarrow> 's \<Rightarrow> 's reaction) \<Rightarrow> bool" where
  "sink_returns onLog' \<longleftrightarrow> (\<forall>entry s. fst (onLog' entry s) = None)"




text \<open>The caller's state after a call of the log sink and after a node update.\<close>

definition logged :: "(log_entry \<Rightarrow> 's \<Rightarrow> 's reaction) \<Rightarrow> log_entry \<Rightarrow> 's \<Rightarrow> 's" where
  "logged onLog' entry s = snd (onLog' entry s)"


section \<open>Example hosts, callbacks and graphs\<close>

text \<open>
  A host without inherited members and without globals, whose network is down and
  whose engine evaluates nothing outside the fragment; the same host with a server that
  answers every request; the same host with a \<open>setTimeout\<close> in its global scope.
\<close>

definition bare_runtime :: runtime where
  "bare_runtime =
     \<lparr>inherited = (\<lambda>v k. None), object_to_string = (\<lambda>v. None), globals = (\<lambda>x. None),
      engine_eval = (\<lambda>src d. (Thrown ''not evaluated'', \<lambda>vs. vs)),
      transport = (\<lambda>cfg. Inl (AxiosError ''Network Error''))\<rparr>"

definition ok_response :: response where
  "ok_response =
     \<lparr>status = 200, statusText = ''OK'', resp_headers = JObj [],
      resp_data = JObj [(''id'', JNum 7)]\<rparr>"

definition not_found_response :: response where
  "not_found_response =
     \<lparr>status = 404, statusText = ''Not Found'', resp_headers = JObj [],
      resp_data = JStr ''missing''\<rparr>"

definition serving_runtime :: runtime where
  "serving_runtime = bare_runtime\<lparr>transport := (\<lambda>cfg. Inr ok_response)\<rparr>"

definition browser_runtime :: runtime where
  "browser_runtime =
     bare_runtime\<lparr>globals := (\<lambda>x. if x = ''setTimeout'' then Some (JFun ''setTimeout'') else None)\<rparr>"

definition missing_runtime :: runtime where
  "missing_runtime = bare_runtime\<lparr>transport := (\<lambda>cfg. Inr not_found_response)\<rparr>"



text \<open>Callbacks that record every call, callbacks that do nothing.\<close>

datatype event =
    Update string node_status "jsvalue option" "string option"
  | Logged log_entry

definition recording :: "event list callbacks" where
  "recording =
     \<lparr>onNodeUpdate = (\<lambda>nodeId st out err s. (None, s @ [Update nodeId st out err])),
      onLog = (\<lambda>entry s. (None, s @ [Logged entry]))\<rparr>"

definition silent :: "unit callbacks" where
  "silent = \<lparr>onNodeUpdate = (\<lambda>nodeId st out err s. (None, s)), onLog = (\<lambda>entry s. (None, s))\<rparr>"



definition api_A :: node where
  "api_A =
     \<lparr>node_id = ''A'', node_type = Api,
      node_data = ApiNodeData \<lparr>method' = GET, url = ''http://example.org/item'',
                               headers = [], body = [], useCorsProxy = False\<rparr>\<rparr>"














section \<open>The lookup object of the interpolation, stated directly\<close>

text \<open>
  \<open>lookup_object\<close> lists the bindings that \<open>allData\<close> builds.
  \<open>spec_lookup_object\<close> and \<open>spec_interpolateVariables\<close> follow the words of the
  specification, in which \<open>data\<close> is bound to the first output whatever its value.
\<close>

definition node_name :: "nat \<Rightarrow> string" where
  "node_name i = ''node'' @ string_of_nat i"

definition lookup_object :: "jsvalue list \<Rightarrow> jsvalue js_record" where
  "lookup_object outputs =
     zip (map node_name [0..<length outputs]) outputs @
     (case outputs of [] \<Rightarrow> [] | first # rest \<Rightarrow> if truthy first then [(''data'', first)] else [])"

definition spec_lookup_object :: "jsvalue list \<Rightarrow> jsvalue js_record" where
  "spec_lookup_object outputs =
     zip (map node_name [0..<length outputs]) outputs @
     (case outputs of [] \<Rightarrow> [] | first # rest \<Rightarrow> [(''data'', first)])"

definition spec_interpolateVariables :: "runtime \<Rightarrow> string \<Rightarrow> jsvalue js_record \<Rightarrow> string" where
  "spec_interpolateVariables rt template outputs =
     replace_tokens
       (\<lambda>match path.
          let val = getNestedValue rt (JObj (spec_lookup_object (js_values outputs))) (trim path)
          in if val = JUndefined then match
             else case js_String rt val of Some s \<Rightarrow> s | None \<Rightarrow> match)
       template"

definition named_output :: "jsvalue js_record" where
  "named_output = [(''n0'', JObj [(''name'', JStr ''x'')])]"

definition id_output :: "jsvalue js_record" where
  "id_output = [(''n0'', JObj [(''id'', JNum 7)])]"

text \<open>
  An occurrence of a token at position \<open>i\<close> of a template: the text \<open>{{\<close>, a
  non-empty run \<open>p\<close> of characters other than \<open>}\<close>, and \<open>}}\<close>.
\<close>

definition token_at :: "string \<Rightarrow> nat \<Rightarrow> bool" where
  "token_at t i \<longleftrightarrow>
     (\<exists>p. p \<noteq> [] \<and> CHR ''}'' \<notin> set p \<and> take (length p + 4) (drop i t) = ''{{'' @ p @ ''}}'')"

section \<open>Termination of the two graph traversals\<close>

subsection \<open>Properties of record updates\<close>

lemma map_of_js_replace:
  "map_of (js_replace k v obj) x =
     (if x = k \<and> map_of obj k \<noteq> None then Some v else map_of obj x)"
  by (induction obj) auto

lemma map_of_insert_index:
  "map_of obj k = None \<Longrightarrow>
   map_of (insert_index n k v obj) x = (if x = k then Some v else map_of obj x)"
  by (induction obj) (auto split: option.splits if_splits)

lemma map_of_define_property: "map_of (define_property obj k v) = (map_of obj)(k \<mapsto> v)"
proof (cases "k \<in> fst ` set obj")
  case True
  then have "map_of obj k \<noteq> None" by (simp add: map_of_eq_None_iff)
  with True show ?thesis by (auto simp: define_property_def map_of_js_replace fun_eq_iff)
next
  case False
  then have "map_of obj k = None" by (simp add: map_of_eq_None_iff)
  with False show ?thesis
    by (auto simp: define_property_def map_of_insert_index map_add_def fun_eq_iff split: option.splits)
qed

lemma keys_define_property: "fst ` set (define_property obj k v) = insert k (fst ` set obj)"
proof -
  have "dom (map_of (define_property obj k v)) = insert k (dom (map_of obj))"
    by (simp add: map_of_define_property)
  then show ?thesis by (simp add: dom_map_of_conv_image_fst)
qed

lemma js_set_ignored:
  "map_of obj ''__proto__'' = None \<Longrightarrow> js_set obj ''__proto__'' v = obj"
  by (simp add: js_set_def map_of_eq_None_iff)

lemma js_set_define:
  "k \<noteq> ''__proto__'' \<or> map_of obj k \<noteq> None \<Longrightarrow> js_set obj k v = define_property obj k v"
  by (auto simp: js_set_def map_of_eq_None_iff)

lemma map_of_js_set:
  "map_of (js_set obj k v) x =
     (if x = k \<and> (k \<noteq> ''__proto__'' \<or> map_of obj k \<noteq> None) then Some v else map_of obj x)"
proof (cases "k \<noteq> ''__proto__'' \<or> map_of obj k \<noteq> None")
  case True
  then show ?thesis by (simp add: js_set_define map_of_define_property)
next
  case False
  then show ?thesis by (auto simp: js_set_ignored)
qed

lemma keys_js_set:
  "k \<noteq> ''__proto__'' \<Longrightarrow> fst ` set (js_set obj k v) = insert k (fst ` set obj)"
  by (simp add: js_set_define keys_define_property)

subsection \<open>The depth-first search terminates\<close>

text \<open>
  A call either stops at once or marks a node that is the source of an edge and was
  not visited before; later calls see at least the nodes visited so far.
\<close>

lemma dfs_visited_mono_partial:
  "dfs_dfs_edges_dom (Inl (es, n, p, st)) \<Longrightarrow> visited st \<subseteq> visited (snd (dfs es n p st))"
  "dfs_dfs_edges_dom (Inr (es, n, p, l, st)) \<Longrightarrow> visited st \<subseteq> visited (snd (dfs_edges es n p l st))"
proof (induct es n p st and es n p l st rule: dfs_dfs_edges.pinduct)
  case (1 es nodeId path st)
  then show ?case
    by (auto simp: dfs.psimps Let_def split: if_splits)
next
  case (2 es nodeId path st)
  then show ?case by (simp add: dfs_edges.psimps)
next
  case (3 es nodeId path e rest st)
  then show ?case
    by (auto simp: dfs_edges.psimps Let_def split: if_splits)
qed

termination dfs
proof (relation "inv_image (less_than <*lex*> less_than)
    (\<lambda>x. case x of
        Inl (es, n, p, st) \<Rightarrow> (card (set (map source es) - visited st), Suc 0)
      | Inr (es, n, p, l, st) \<Rightarrow> (card (set (map source es) - visited st), 2 * length l))", goal_cases)
  case 1
  show ?case by (intro wf_inv_image wf_lex_prod wf_less_than)
next
  case (2 es nodeId path st)
  show ?case
  proof (cases "filter (\<lambda>e. source e = nodeId) es = []")
    case True
    have "card (set (map source es) - insert nodeId (visited st)) \<le> card (set (map source es) - visited st)"
      by (rule card_mono) auto
    with True show ?thesis by auto
  next
    case False
    then obtain e where "e \<in> set es" "source e = nodeId"
      by (auto simp: filter_empty_conv)
    then have "nodeId \<in> set (map source es) - visited st" using 2 by auto
    then have "card (set (map source es) - insert nodeId (visited st)) < card (set (map source es) - visited st)"
      by (intro psubset_card_mono) auto
    then show ?thesis by auto
  qed
next
  case (3 es nodeId path e rest st)
  then show ?case by auto
next
  case (4 es nodeId path e rest st x)
  then have "visited st \<subseteq> visited (snd x)"
    using dfs_visited_mono_partial(1) by auto
  then have "card (set (map source es) - visited (snd x)) \<le> card (set (map source es) - visited st)"
    by (intro card_mono) auto
  then show ?case by auto
qed

subsection \<open>Kahn's loop terminates\<close>

lemma pending_js_replace:
  "map_of d k = Some old \<Longrightarrow>
   pending (js_replace k v d) + (if is_pos old then 1 else 0) = pending d + (if is_pos v then 1 else 0)"
  by (induction d) (auto simp: pending_def split: if_splits)

lemma pending_insert_index:
  "pending (insert_index n k v d) = pending d + (if is_pos v then 1 else 0)"
  by (induction d) (auto simp: pending_def split: option.splits)

lemma pending_define_property:
  "pending (define_property d k v) +
     (case map_of d k of Some old \<Rightarrow> if is_pos old then 1 else 0 | None \<Rightarrow> 0)
     = pending d + (if is_pos v then 1 else 0)"
proof (cases "map_of d k")
  case None
  then have "k \<notin> fst ` set d" by (simp add: map_of_eq_None_iff)
  with None show ?thesis
    by (auto simp: define_property_def pending_insert_index split: option.splits)
       (auto simp: pending_def)
next
  case (Some old)
  then have "k \<in> fst ` set d" by (metis map_of_eq_None_iff option.distinct(1))
  with Some pending_js_replace[OF Some, of v] show ?thesis
    by (simp add: define_property_def)
qed

lemma pending_js_set:
  "\<not> is_pos v \<or> k \<noteq> ''__proto__'' \<or> map_of d k \<noteq> None \<Longrightarrow>
   pending (js_set d k v) + (case map_of d k of Some old \<Rightarrow> if is_pos old then 1 else 0 | None \<Rightarrow> 0)
     = pending d + (if is_pos v then 1 else 0)"
proof (cases "k \<noteq> ''__proto__'' \<or> map_of d k \<noteq> None")
  case True
  then show ?thesis by (simp only: js_set_define pending_define_property)
next
  case False
  assume "\<not> is_pos v \<or> k \<noteq> ''__proto__'' \<or> map_of d k \<noteq> None"
  with False show ?thesis by (simp add: js_set_ignored)
qed

lemma visit_neighbors_measure:
  "length (snd (visit_neighbors ns (d, q))) + pending (fst (visit_neighbors ns (d, q)))
     = length q + pending d"
proof (induction ns arbitrary: d q)
  case Nil
  then show ?case by simp
next
  case (Cons n ns)
  let ?v = "decrement (map_of d n)"
  let ?d1 = "js_set d n ?v"
  have m: "(map_of ?d1 n = Some (Num 0)) = (?v = Num 0)"
    by (cases "map_of d n") (auto simp: map_of_js_set)
  have "\<not> is_pos ?v \<or> n \<noteq> ''__proto__'' \<or> map_of d n \<noteq> None"
    by (cases "map_of d n") simp_all
  note p = pending_js_set[OF this]
  have step: "length (if ?v = Num 0 then q @ [n] else q) + pending ?d1 = length q + pending d"
  proof (cases "map_of d n")
    case None
    with p show ?thesis by simp
  next
    case (Some old)
    show ?thesis
    proof (cases old)
      case (Num i)
      show ?thesis
      proof (cases "i = 1")
        case True
        with Num Some p show ?thesis by simp
      next
        case False
        with Num Some p show ?thesis by (auto split: if_splits)
      qed
    next
      case NaN
      with Some p show ?thesis by simp
    qed
  qed
  show ?case
    using Cons.IH[of ?d1 "if ?v = Num 0 then q @ [n] else q"] step
    by (simp add: Let_def m)
qed

termination kahn_loop
proof (relation "measure (\<lambda>(adj, d, q, res). length q + pending d)", goal_cases)
  case 1
  show ?case by simp
next
  case (2 adjacencyList inDegree current queue result neighbors)
  show ?case
    using visit_neighbors_measure[of neighbors inDegree queue] by simp
qed

subsection \<open>The token scan terminates\<close>

lemma match_token_shorter: "match_token s = Some (p, rest) \<Longrightarrow> length rest < length s"
proof (cases s rule: match_token.cases)
  case (1 a b t)
  assume m: "match_token s = Some (p, rest)"
  with 1 have "rest = drop 2 (dropWhile (\<lambda>c. c \<noteq> CHR ''}'') t)"
    by (simp add: Let_def split: if_splits)
  moreover have "length (dropWhile (\<lambda>c. c \<noteq> CHR ''}'') t) \<le> length t"
    by (rule length_dropWhile_le)
  ultimately show ?thesis using 1 by simp
qed simp_all

termination replace_tokens
proof (relation "measure (\<lambda>(callback, s). length s)", goal_cases)
  case 1
  show ?case by simp
next
  case (2 callback c cs)
  show ?case by simp
next
  case (3 callback c cs x p rest)
  then have "match_token (c # cs) = Some (p, rest)" by simp
  from match_token_shorter[OF this] show ?case by simp
qed

section \<open>Kahn's algorithm\<close>

lemma init_tables_inDegree:
  "map_of d ''__proto__'' = None \<Longrightarrow>
   map_of (fst (init_tables ns (d, a))) v =
     (if v \<in> node_id ` set ns - {''__proto__''} then Some (Num 0) else map_of d v)"
proof (induction ns arbitrary: d a)
  case Nil
  show ?case by simp
next
  case (Cons n ns)
  have "map_of (js_set d (node_id n) (Num 0)) ''__proto__'' = None"
    using Cons.prems by (simp add: map_of_js_set)
  from Cons.IH[OF this] Cons.prems show ?case by (auto simp: map_of_js_set)
qed

lemma adjacency_init_own:
  "map_of (own_lists a) ''__proto__'' = None \<Longrightarrow>
   map_of (own_lists (adjacency_init a k)) v =
     (if v = k \<and> k \<noteq> ''__proto__'' then Some [] else map_of (own_lists a) v)"
  by (auto simp: adjacency_init_def map_of_define_property map_of_eq_None_iff)

lemma adjacency_init_prototype:
  "map_of (own_lists a) ''__proto__'' = None \<Longrightarrow>
   prototype (adjacency_init a k) = (if k = ''__proto__'' then Some [] else prototype a)"
  by (auto simp: adjacency_init_def map_of_eq_None_iff)

lemma init_tables_adjacency:
  "map_of (own_lists a) ''__proto__'' = None \<Longrightarrow>
   map_of (own_lists (snd (init_tables ns (d, a)))) v =
     (if v \<in> node_id ` set ns - {''__proto__''} then Some [] else map_of (own_lists a) v)"
proof (induction ns arbitrary: d a)
  case Nil
  show ?case by simp
next
  case (Cons n ns)
  have "map_of (own_lists (adjacency_init a (node_id n))) ''__proto__'' = None"
    using Cons.prems by (simp add: adjacency_init_own)
  from Cons.IH[OF this] Cons.prems show ?case by (auto simp: adjacency_init_own)
qed

lemma init_tables_prototype:
  "map_of (own_lists a) ''__proto__'' = None \<Longrightarrow>
   prototype (snd (init_tables ns (d, a))) =
     (if ''__proto__'' \<in> node_id ` set ns then Some [] else prototype a)"
proof (induction ns arbitrary: d a)
  case Nil
  show ?case by simp
next
  case (Cons n ns)
  let ?a = "adjacency_init a (node_id n)"
  have own: "map_of (own_lists ?a) ''__proto__'' = None"
    using Cons.prems by (simp add: adjacency_init_own)
  have "prototype (snd (init_tables (n # ns) (d, a))) =
          (if ''__proto__'' \<in> node_id ` set ns then Some [] else prototype ?a)"
    using Cons.IH[OF own] by simp
  also have "prototype ?a = (if node_id n = ''__proto__'' then Some [] else prototype a)"
    using Cons.prems by (rule adjacency_init_prototype)
  finally show ?case by auto
qed

lemma add_edges_ok:
  assumes "\<forall>e\<in>set es. map_of (own_lists a) (source e) \<noteq> None \<or>
                        (source e = ''__proto__'' \<and> prototype a \<noteq> None)"
  shows "\<exists>d' a'. add_edges es (d, a) = Inr (d', a') \<and>
           (\<forall>v. map_of (own_lists a') v =
                  map_option (\<lambda>ts. ts @ out_targets es v) (map_of (own_lists a) v)) \<and>
           (\<forall>v n. map_of d v = Some (Num n) \<longrightarrow>
                  map_of d' v = Some (Num (n + int (in_count es v)))) \<and>
           (\<forall>v. \<not> is_num (map_of d v) \<longrightarrow> \<not> is_num (map_of d' v))"
  using assms
proof (induction es arbitrary: d a)
  case Nil
  then show ?case by (simp add: out_targets_def in_count_def option.map_ident)
next
  case (Cons e es)
  let ?d1 = "js_set d (target e) (increment (map_of d (target e)))"
  obtain a1 where push: "adjacency_push a (source e) (target e) = Inr a1"
    and own1: "\<forall>v. map_of (own_lists a1) v =
                 map_option (\<lambda>ts. if v = source e then ts @ [target e] else ts) (map_of (own_lists a) v)"
    and proto1: "prototype a \<noteq> None \<longrightarrow> prototype a1 \<noteq> None"
  proof (cases "map_of (own_lists a) (source e)")
    case (Some ts)
    let ?a1 = "a\<lparr>own_lists := js_replace (source e) (ts @ [target e]) (own_lists a)\<rparr>"
    have "adjacency_push a (source e) (target e) = Inr ?a1"
      using Some by (simp add: adjacency_push_def adjacency_read_def)
    moreover have "\<forall>v. map_of (own_lists ?a1) v =
                 map_option (\<lambda>ts. if v = source e then ts @ [target e] else ts) (map_of (own_lists a) v)"
      using Some by (auto simp: map_of_js_replace option.map_ident)
    moreover have "prototype a \<noteq> None \<longrightarrow> prototype ?a1 \<noteq> None" by simp
    ultimately show ?thesis using that by blast
  next
    case None
    with Cons.prems obtain inherited where
      p: "source e = ''__proto__''" "prototype a = Some inherited" by auto
    let ?a1 = "a\<lparr>prototype := Some (inherited @ [target e])\<rparr>"
    have "adjacency_push a (source e) (target e) = Inr ?a1"
      using None p by (simp add: adjacency_push_def adjacency_read_def)
    moreover have "\<forall>v. map_of (own_lists ?a1) v =
                 map_option (\<lambda>ts. if v = source e then ts @ [target e] else ts) (map_of (own_lists a) v)"
      using None by (auto simp: option.map_ident map_option_case split: option.splits)
    moreover have "prototype a \<noteq> None \<longrightarrow> prototype ?a1 \<noteq> None" by simp
    ultimately show ?thesis using that by blast
  qed
  have "\<forall>e'\<in>set es. map_of (own_lists a1) (source e') \<noteq> None \<or>
                        (source e' = ''__proto__'' \<and> prototype a1 \<noteq> None)"
    using Cons.prems own1 proto1 by auto
  from Cons.IH[OF this, of ?d1] obtain d' a' where
    r: "add_edges es (?d1, a1) = Inr (d', a')"
    and a': "\<forall>v. map_of (own_lists a') v =
                    map_option (\<lambda>ts. ts @ out_targets es v) (map_of (own_lists a1) v)"
    and d': "\<forall>v n. map_of ?d1 v = Some (Num n) \<longrightarrow>
                  map_of d' v = Some (Num (n + int (in_count es v)))"
    and nn: "\<forall>v. \<not> is_num (map_of ?d1 v) \<longrightarrow> \<not> is_num (map_of d' v)"
    by blast
  have 1: "add_edges (e # es) (d, a) = Inr (d', a')" using push r by simp
  have 2: "\<forall>v. map_of (own_lists a') v =
                 map_option (\<lambda>ts. ts @ out_targets (e # es) v) (map_of (own_lists a) v)"
    using a' own1 by (auto simp: out_targets_def option.map_comp comp_def cong: option.map_cong)
  have 3: "\<forall>v n. map_of d v = Some (Num n) \<longrightarrow>
                  map_of d' v = Some (Num (n + int (in_count (e # es) v)))"
  proof (intro allI impI)
    fix v n assume v: "map_of d v = Some (Num n)"
    then have "map_of ?d1 v = Some (Num (if v = target e then n + 1 else n))"
      by (auto simp: map_of_js_set)
    with d' have "map_of d' v = Some (Num ((if v = target e then n + 1 else n) + int (in_count es v)))"
      by blast
    then show "map_of d' v = Some (Num (n + int (in_count (e # es) v)))"
      by (auto simp: in_count_def)
  qed
  have 4: "\<forall>v. \<not> is_num (map_of d v) \<longrightarrow> \<not> is_num (map_of d' v)"
  proof (intro allI impI)
    fix v assume v: "\<not> is_num (map_of d v)"
    have "\<not> is_num (map_of ?d1 v)"
    proof (cases "v = target e")
      case True
      with v show ?thesis
        by (cases "map_of d (target e)"; cases "the (map_of d (target e))")
           (auto simp: map_of_js_set is_num_def)
    next
      case False
      with v show ?thesis by (simp add: map_of_js_set)
    qed
    with nn show "\<not> is_num (map_of d' v)" by blast
  qed
  from 1 2 3 4 show ?case by blast
qed



lemma visit_neighbors_spec:
  assumes "\<forall>v\<in>V. map_of d v = Some (Num (int (base v + count_list ns v)))"
    and "\<forall>v. v \<notin> V \<longrightarrow> \<not> is_num (map_of d v)"
  shows "(\<forall>v\<in>V. map_of (fst (visit_neighbors ns (d, q))) v = Some (Num (int (base v)))) \<and>
         (\<forall>v. v \<notin> V \<longrightarrow> \<not> is_num (map_of (fst (visit_neighbors ns (d, q))) v)) \<and>
         set (snd (visit_neighbors ns (d, q))) = set q \<union> {v \<in> set ns \<inter> V. base v = 0} \<and>
         (distinct q \<longrightarrow> (\<forall>v\<in>set ns \<inter> V. base v = 0 \<longrightarrow> v \<notin> set q) \<longrightarrow>
            distinct (snd (visit_neighbors ns (d, q))))"
  using assms
proof (induction ns arbitrary: d q)
  case Nil
  then show ?case by simp
next
  case (Cons n ns)
  let ?x = "decrement (map_of d n)"
  let ?d1 = "js_set d n ?x"
  let ?q1 = "if ?x = Num 0 then q @ [n] else q"
  have unfold: "visit_neighbors (n # ns) (d, q) = visit_neighbors ns (?d1, ?q1)"
    by (simp add: Let_def map_of_js_set)
  have d1V: "\<forall>v\<in>V. map_of ?d1 v = Some (Num (int (base v + count_list ns v)))"
  proof
    fix v assume v: "v \<in> V"
    with Cons.prems(1) have "map_of d v = Some (Num (int (base v + count_list (n # ns) v)))"
      by blast
    then show "map_of ?d1 v = Some (Num (int (base v + count_list ns v)))"
      by (auto simp: map_of_js_set)
  qed
  have d1N: "\<forall>v. v \<notin> V \<longrightarrow> \<not> is_num (map_of ?d1 v)"
  proof (intro allI impI)
    fix v assume v: "v \<notin> V"
    with Cons.prems(2) have nn: "\<not> is_num (map_of d v)" by blast
    show "\<not> is_num (map_of ?d1 v)"
    proof (cases "v = n")
      case True
      with nn show ?thesis
        by (cases "map_of d n"; cases "the (map_of d n)") (auto simp: map_of_js_set is_num_def)
    next
      case False
      with nn show ?thesis by (simp add: map_of_js_set)
    qed
  qed
  have pushed: "?x = Num 0 \<longleftrightarrow> n \<in> V \<and> base n = 0 \<and> n \<notin> set ns"
  proof (cases "n \<in> V")
    case True
    with Cons.prems(1) have "map_of d n = Some (Num (int (base n + count_list (n # ns) n)))"
      by blast
    then have "?x = Num (int (base n + count_list ns n))" by simp
    moreover have "(base n + count_list ns n = 0) = (base n = 0 \<and> n \<notin> set ns)"
      by (simp add: count_list_0_iff)
    ultimately show ?thesis using True by (simp del: of_nat_add add_is_0)
  next
    case False
    with Cons.prems(2) have "\<not> is_num (map_of d n)" by blast
    then have "?x = NaN"
      by (cases "map_of d n"; cases "the (map_of d n)") (auto simp: is_num_def)
    with False show ?thesis by simp
  qed
  note IH = Cons.IH[OF d1V d1N, of ?q1]
  have s: "set ?q1 \<union> {v \<in> set ns \<inter> V. base v = 0} = set q \<union> {v \<in> set (n # ns) \<inter> V. base v = 0}"
    using pushed by auto
  have dst: "distinct ?q1 \<and> (\<forall>v\<in>set ns \<inter> V. base v = 0 \<longrightarrow> v \<notin> set ?q1)"
    if "distinct q" "\<forall>v\<in>set (n # ns) \<inter> V. base v = 0 \<longrightarrow> v \<notin> set q"
    using that pushed by auto
  show ?case
    unfolding unfold using IH s dst by (metis (no_types, lifting))
qed

lemma remaining_in_split:
  "c \<notin> D \<Longrightarrow>
   remaining_in es D v = remaining_in es (insert c D) v + count_list (out_targets es c) v"
  by (induction es) (auto simp: remaining_in_def out_targets_def)

lemma remaining_in_empty: "remaining_in es {} v = in_count es v"
  by (simp add: remaining_in_def in_count_def)

lemma remaining_in_pos:
  "0 < remaining_in es D v \<Longrightarrow> \<exists>e\<in>set es. target e = v \<and> source e \<notin> D"
  by (auto simp: remaining_in_def filter_empty_conv)

lemma remaining_in_zero:
  "remaining_in es D v = 0 \<Longrightarrow> e \<in> set es \<Longrightarrow> target e = v \<Longrightarrow> source e \<in> D"
  by (auto simp: remaining_in_def filter_empty_conv)

lemma kahn_step:
  assumes inv: "kahn_inv g d (c # q) res"
  shows "kahn_inv g (fst (visit_neighbors (out_targets (edges g) c) (d, q)))
           (snd (visit_neighbors (out_targets (edges g) c) (d, q))) (res @ [c])"
proof -
  let ?V = "keyed_ids g"
  let ?es = "edges g"
  let ?ns = "out_targets ?es c"
  let ?R = "visit_neighbors ?ns (d, q)"
  let ?base = "remaining_in ?es (set (res @ [c]))"
  from inv have dist: "distinct (res @ c # q)" and sub: "set (res @ c # q) \<subseteq> ?V"
    and dV: "\<forall>v\<in>?V. map_of d v = Some (Num (int (remaining_in ?es (set res) v)))"
    and dN: "\<forall>v. v \<notin> ?V \<longrightarrow> \<not> is_num (map_of d v)"
    and zero: "\<forall>v\<in>?V. v \<in> set (res @ c # q) \<longleftrightarrow> remaining_in ?es (set res) v = 0"
    and ord: "\<forall>e\<in>set ?es. target e \<in> set res \<longrightarrow>
        (\<exists>i j. i < j \<and> j < length res \<and> res ! i = source e \<and> res ! j = target e)"
    by (simp_all add: kahn_inv_def)
  from dist have c_new: "c \<notin> set res" by auto
  from sub have cV: "c \<in> ?V" by auto
  have split: "remaining_in ?es (set res) v = ?base v + count_list ?ns v" for v
    using remaining_in_split[OF c_new, of ?es v] by simp
  have pre1: "\<forall>v\<in>?V. map_of d v = Some (Num (int (?base v + count_list ?ns v)))"
    using dV split by simp
  from visit_neighbors_spec[of ?V d ?base ?ns q, OF pre1 dN]
  have A: "\<forall>v\<in>?V. map_of (fst ?R) v = Some (Num (int (?base v)))"
    and B: "\<forall>v. v \<notin> ?V \<longrightarrow> \<not> is_num (map_of (fst ?R) v)"
    and C: "set (snd ?R) = set q \<union> {v \<in> set ?ns \<inter> ?V. ?base v = 0}"
    and D: "distinct q \<longrightarrow> (\<forall>v\<in>set ?ns \<inter> ?V. ?base v = 0 \<longrightarrow> v \<notin> set q) \<longrightarrow> distinct (snd ?R)"
    by blast+
  have fresh: "v \<notin> set (res @ c # q)" if "v \<in> set ?ns" "v \<in> ?V" for v
  proof -
    from that(1) have "count_list ?ns v \<noteq> 0" by (simp add: count_list_0_iff)
    with split[of v] have "remaining_in ?es (set res) v \<noteq> 0" by simp
    with zero that(2) show ?thesis by auto
  qed
  have 1: "distinct ((res @ [c]) @ snd ?R)"
  proof -
    from dist have "distinct q" by simp
    with D fresh have "distinct (snd ?R)" by auto
    moreover have "set (res @ [c]) \<inter> set (snd ?R) = {}"
      using C dist fresh by auto
    moreover have "distinct (res @ [c])" using dist by simp
    ultimately show ?thesis by (simp only: distinct_append)
  qed
  have 2: "set ((res @ [c]) @ snd ?R) \<subseteq> ?V" using C sub by auto
  have mono: "?base v \<le> remaining_in ?es (set res) v" for v using split[of v] by simp
  have 5: "\<forall>v\<in>?V. v \<in> set ((res @ [c]) @ snd ?R) \<longleftrightarrow> ?base v = 0"
  proof
    fix v assume v: "v \<in> ?V"
    show "v \<in> set ((res @ [c]) @ snd ?R) \<longleftrightarrow> ?base v = 0"
    proof
      assume "v \<in> set ((res @ [c]) @ snd ?R)"
      then consider "v \<in> set (res @ c # q)" | "v \<in> set ?ns \<inter> ?V" "?base v = 0"
        using C by auto
      then show "?base v = 0"
      proof cases
        case 1
        with zero v have "remaining_in ?es (set res) v = 0" by auto
        with mono[of v] show ?thesis by simp
      next
        case 2
        then show ?thesis by simp
      qed
    next
      assume b: "?base v = 0"
      show "v \<in> set ((res @ [c]) @ snd ?R)"
      proof (cases "remaining_in ?es (set res) v = 0")
        case True
        with zero v have "v \<in> set (res @ c # q)" by auto
        then show ?thesis using C by auto
      next
        case False
        with split[of v] b have "count_list ?ns v \<noteq> 0" by simp
        then have "v \<in> set ?ns" by (simp add: count_list_0_iff)
        with v b C show ?thesis by auto
      qed
    qed
  qed
  have 6: "\<forall>e\<in>set ?es. target e \<in> set (res @ [c]) \<longrightarrow>
        (\<exists>i j. i < j \<and> j < length (res @ [c]) \<and> (res @ [c]) ! i = source e \<and> (res @ [c]) ! j = target e)"
  proof (intro ballI impI)
    fix e assume e: "e \<in> set ?es" and t: "target e \<in> set (res @ [c])"
    show "\<exists>i j. i < j \<and> j < length (res @ [c]) \<and> (res @ [c]) ! i = source e \<and> (res @ [c]) ! j = target e"
    proof (cases "target e \<in> set res")
      case True
      with ord e obtain i j where "i < j" "j < length res" "res ! i = source e" "res ! j = target e"
        by blast
      then have "i < j \<and> j < length (res @ [c]) \<and> (res @ [c]) ! i = source e \<and> (res @ [c]) ! j = target e"
        by (simp add: nth_append)
      then show ?thesis by blast
    next
      case False
      with t have tc: "target e = c" by simp
      from zero cV have "remaining_in ?es (set res) c = 0" by auto
      from remaining_in_zero[OF this e tc] have "source e \<in> set res" .
      then obtain i where "i < length res" "res ! i = source e" by (auto simp: in_set_conv_nth)
      then have "i < length res \<and> length res < length (res @ [c]) \<and>
                 (res @ [c]) ! i = source e \<and> (res @ [c]) ! (length res) = target e"
        using tc by (simp add: nth_append)
      then show ?thesis by blast
    qed
  qed
  from 1 2 A B 5 6 show ?thesis unfolding kahn_inv_def by blast
qed

lemma kahn_loop_inv:
  assumes "adj_ok g adj" "kahn_inv g d q res"
  shows "\<exists>final d'. kahn_loop adj d q res = Inr final \<and> kahn_inv g d' [] final"
  using assms
proof (induction adj d q res rule: kahn_loop.induct)
  case (1 adjacencyList inDegree result)
  then show ?case by auto
next
  case (2 adjacencyList inDegree current queue result)
  from 2(3) have "current \<in> keyed_ids g" by (simp add: kahn_inv_def)
  with 2(2) have "map_of (own_lists adjacencyList) current = Some (out_targets (edges g) current)"
    by (simp add: adj_ok_def)
  then have adj: "adjacency_neighbors adjacencyList current = Inr (out_targets (edges g) current)"
    by (simp add: adjacency_neighbors_def adjacency_read_def)
  from kahn_step[OF 2(3)] 2(1)[OF adj 2(2)] adj show ?case by simp
qed

lemma keyed_ids_plain: "''__proto__'' \<notin> set (node_ids g) \<Longrightarrow> keyed_ids g = set (node_ids g)"
  by (simp add: keyed_ids_def)

lemma topologicalSort_run:
  assumes dist: "distinct (node_ids g)"
    and src: "\<forall>e\<in>set (edges g). source e \<in> set (node_ids g)"
  shows "\<exists>final d. kahn_inv g d [] final \<and>
           topologicalSort g =
             (if length final \<noteq> length (nodes g) then Inl (Error ''Graph contains cycles'')
              else Inr final)"
proof -
  let ?V = "keyed_ids g"
  let ?es = "edges g"
  let ?init = "init_tables (nodes g) ([], \<lparr>own_lists = [], prototype = None\<rparr>)"
  let ?d0 = "fst ?init"
  let ?a0 = "snd ?init"
  have d0: "map_of ?d0 v = (if v \<in> ?V then Some (Num 0) else None)" for v
    using init_tables_inDegree[of "[]" "nodes g" "\<lparr>own_lists = [], prototype = None\<rparr>" v]
    by (simp add: node_ids_def keyed_ids_def)
  have a0: "map_of (own_lists ?a0) v = (if v \<in> ?V then Some [] else None)" for v
    using init_tables_adjacency[of "\<lparr>own_lists = [], prototype = None\<rparr>" "nodes g" "[]" v]
    by (simp add: node_ids_def keyed_ids_def)
  have p0: "''__proto__'' \<in> set (node_ids g) \<longrightarrow> prototype ?a0 \<noteq> None"
    using init_tables_prototype[of "\<lparr>own_lists = [], prototype = None\<rparr>" "nodes g" "[]"]
    by (simp add: node_ids_def)
  have "\<forall>e\<in>set ?es. map_of (own_lists ?a0) (source e) \<noteq> None \<or>
                        (source e = ''__proto__'' \<and> prototype ?a0 \<noteq> None)"
    using src a0 p0 by (auto simp: keyed_ids_def)
  from add_edges_ok[OF this, of ?d0] obtain d a where
    r: "add_edges ?es (?d0, ?a0) = Inr (d, a)"
    and a: "\<forall>v. map_of (own_lists a) v =
                  map_option (\<lambda>ts. ts @ out_targets ?es v) (map_of (own_lists ?a0) v)"
    and dnum: "\<forall>v n. map_of ?d0 v = Some (Num n) \<longrightarrow> map_of d v = Some (Num (n + int (in_count ?es v)))"
    and dnn: "\<forall>v. \<not> is_num (map_of ?d0 v) \<longrightarrow> \<not> is_num (map_of d v)"
    by blast
  have adj: "adj_ok g a" using a a0 by (simp add: adj_ok_def)
  have dV: "\<forall>v\<in>?V. map_of d v = Some (Num (int (in_count ?es v)))"
    using dnum d0 by simp
  have dN: "\<forall>v. v \<notin> ?V \<longrightarrow> \<not> is_num (map_of d v)"
    using dnn d0 by (simp add: is_num_def)
  let ?q0 = "map node_id (filter (\<lambda>n. map_of d (node_id n) = Some (Num 0)) (nodes g))"
  have q0_dist: "distinct ?q0"
    using dist unfolding node_ids_def by (rule distinct_map_filter)
  have q0_set: "set ?q0 = {v \<in> ?V. in_count ?es v = 0}"
  proof (intro set_eqI iffI)
    fix v assume "v \<in> set ?q0"
    then have v: "v \<in> set (node_ids g)" "map_of d v = Some (Num 0)"
      by (auto simp: node_ids_def)
    then have "v \<in> ?V" using dN by (auto simp: is_num_def)
    with v dV show "v \<in> {v \<in> ?V. in_count ?es v = 0}" by auto
  next
    fix v assume "v \<in> {v \<in> ?V. in_count ?es v = 0}"
    then have "v \<in> set (node_ids g)" "map_of d v = Some (Num 0)"
      using dV by (auto simp: keyed_ids_def)
    then show "v \<in> set ?q0" by (auto simp: node_ids_def)
  qed
  have inv0: "kahn_inv g d ?q0 []"
    unfolding kahn_inv_def using q0_dist q0_set dV dN by (auto simp: remaining_in_empty)
  from kahn_loop_inv[OF adj inv0] obtain final d' where
    k: "kahn_loop a d ?q0 [] = Inr final" and inv: "kahn_inv g d' [] final"
    by blast
  from r have r': "add_edges ?es ?init = Inr (d, a)" by simp
  have "topologicalSort g =
          (if length final \<noteq> length (nodes g) then Inl (Error ''Graph contains cycles'')
           else Inr final)"
    by (simp add: topologicalSort_def r' k)
  with inv show ?thesis by blast
qed


lemma kahn_complete:
  assumes inv: "kahn_inv g d [] final"
    and acyc: "acyclic (edge_rel g)"
    and src: "\<forall>e\<in>set (edges g). source e \<in> set (node_ids g)"
    and plain: "''__proto__'' \<notin> set (node_ids g)"
  shows "set final = set (node_ids g)"
proof (rule ccontr)
  assume ne: "set final \<noteq> set (node_ids g)"
  let ?W = "set (node_ids g) - set final"
  from inv have sub: "set final \<subseteq> set (node_ids g)"
    and zero: "\<forall>v\<in>set (node_ids g). v \<in> set final \<longleftrightarrow> remaining_in (edges g) (set final) v = 0"
    by (simp_all add: kahn_inv_def keyed_ids_plain[OF plain])
  from ne sub obtain x where x: "x \<in> ?W" by auto
  have "finite (edge_rel g)" by (simp add: edge_rel_def edges_rel_def)
  with acyc have "wf (edge_rel g)" by (simp add: finite_acyclic_wf)
  from wfE_min[OF this x] obtain z where z: "z \<in> ?W"
    and min: "\<And>y. (y, z) \<in> edge_rel g \<Longrightarrow> y \<notin> ?W" by blast
  from z zero have "0 < remaining_in (edges g) (set final) z" by auto
  from remaining_in_pos[OF this] obtain e where
    e: "e \<in> set (edges g)" "target e = z" "source e \<notin> set final" by blast
  with src have "source e \<in> ?W" by auto
  moreover from e have "(source e, z) \<in> edge_rel g" by (force simp: edge_rel_def edges_rel_def)
  ultimately show False using min by blast
qed

lemma first_index_less: "x \<in> set xs \<Longrightarrow> first_index xs x < length xs"
  by (induction xs) auto

lemma first_index_nth: "distinct xs \<Longrightarrow> i < length xs \<Longrightarrow> first_index xs (xs ! i) = i"
proof (induction xs arbitrary: i)
  case Nil
  then show ?case by simp
next
  case (Cons a xs)
  then show ?case by (cases i) auto
qed

lemma acyclic_by_rank:
  fixes f :: "'a \<Rightarrow> nat"
  assumes "\<And>a b. (a, b) \<in> r \<Longrightarrow> f a < f b"
  shows "acyclic r"
proof -
  have "r \<subseteq> measure f" using assms by auto
  then have "wf r" by (rule wf_subset[OF wf_measure])
  then show ?thesis by (rule wf_acyclic)
qed

lemma kahn_order:
  assumes inv: "kahn_inv g d [] final" and e: "e \<in> set (edges g)" and t: "target e \<in> set final"
  shows "source e \<in> set final \<and> first_index final (source e) < first_index final (target e)"
proof -
  from inv have dist: "distinct final"
    and ord: "\<forall>e\<in>set (edges g). target e \<in> set final \<longrightarrow>
        (\<exists>i j. i < j \<and> j < length final \<and> final ! i = source e \<and> final ! j = target e)"
    by (simp_all add: kahn_inv_def)
  from ord e t obtain i j where ij: "i < j" "j < length final" "final ! i = source e" "final ! j = target e"
    by blast
  then have "first_index final (source e) = i" "first_index final (target e) = j"
    using first_index_nth[OF dist] by (metis less_trans)+
  with ij show ?thesis by (metis less_trans nth_mem)
qed

lemma kahn_all_acyclic:
  assumes inv: "kahn_inv g d [] final" and full: "set final = set (node_ids g)"
    and src: "\<forall>e\<in>set (edges g). source e \<in> set (node_ids g)"
  shows "acyclic (edge_rel g)"
proof (rule acyclic_by_rank)
  fix a b assume "(a, b) \<in> edge_rel g"
  then obtain e where e: "e \<in> set (edges g)" "a = source e" "b = target e"
    by (auto simp: edge_rel_def edges_rel_def)
  let ?f = "\<lambda>v. if v \<in> set final then first_index final v else length final"
  show "?f a < ?f b"
  proof (cases "b \<in> set final")
    case True
    with kahn_order[OF inv e(1)] e show ?thesis by simp
  next
    case False
    from src e full have "a \<in> set final" by simp
    with False show ?thesis by (simp add: first_index_less)
  qed
qed

section \<open>Depth-first cycle detection\<close>

declare dfs.simps [simp del]

lemma dfs_on_stack:
  "nodeId \<in> recursionStack st \<Longrightarrow>
   dfs es nodeId path st = (True, st\<lparr>cycles := cycles st @ slice (indexOf path nodeId) path\<rparr>)"
  by (subst dfs.simps) simp

lemma dfs_seen:
  "nodeId \<notin> recursionStack st \<Longrightarrow> nodeId \<in> visited st \<Longrightarrow> dfs es nodeId path st = (False, st)"
  by (subst dfs.simps) simp

lemma dfs_new:
  "nodeId \<notin> recursionStack st \<Longrightarrow> nodeId \<notin> visited st \<Longrightarrow>
   dfs es nodeId path st =
     (let r = dfs_edges es nodeId path (filter (\<lambda>e. source e = nodeId) es) (enter nodeId st)
      in if fst r then (True, snd r)
         else (False, (snd r)\<lparr>recursionStack := recursionStack (snd r) - {nodeId}\<rparr>))"
  by (subst dfs.simps) (simp add: enter_def)

lemma dfs_cycles_prefix:
  "\<exists>ys. cycles (snd (dfs es n p st)) = cycles st @ ys"
  "\<exists>ys. cycles (snd (dfs_edges es n p l st)) = cycles st @ ys"
proof (induction es n p st and es n p l st rule: dfs_dfs_edges.induct)
  case (1 es nodeId path st)
  show ?case
  proof (cases "nodeId \<in> recursionStack st")
    case True
    then show ?thesis by (simp add: dfs_on_stack)
  next
    case ns: False
    show ?thesis
    proof (cases "nodeId \<in> visited st")
      case True
      with ns show ?thesis by (simp add: dfs_seen)
    next
      case False
      from 1[OF ns False] show ?thesis
        by (simp add: dfs_new[OF ns False] Let_def enter_def)
    qed
  qed
next
  case (2 es nodeId path st)
  show ?case by simp
next
  case (3 es nodeId path e rest st)
  let ?r = "dfs es (target e) (path @ [nodeId]) st"
  from 3(1) obtain ys where ys: "cycles (snd ?r) = cycles st @ ys" by blast
  show ?case
  proof (cases "fst ?r")
    case True
    with ys show ?thesis by (simp add: Let_def)
  next
    case False
    from 3(2)[OF refl False] obtain zs where
      "cycles (snd (dfs_edges es nodeId path rest (snd ?r))) = cycles (snd ?r) @ zs" by blast
    with ys False show ?thesis by (simp add: Let_def)
  qed
qed

lemma dfs_roots_cycles_prefix: "\<exists>ys. cycles (dfs_roots es ns st) = cycles st @ ys"
proof (induction ns arbitrary: st)
  case Nil
  show ?case by simp
next
  case (Cons n ns)
  show ?case
  proof (cases "node_id n \<in> visited st")
    case True
    with Cons[of st] show ?thesis by simp
  next
    case False
    from dfs_cycles_prefix(1)[of es "node_id n" "[]" st] obtain ys where
      "cycles (snd (dfs es (node_id n) [] st)) = cycles st @ ys" by blast
    moreover from Cons[of "snd (dfs es (node_id n) [] st)"] obtain zs where
      "cycles (dfs_roots es ns (snd (dfs es (node_id n) [] st))) = cycles (snd (dfs es (node_id n) [] st)) @ zs"
      by blast
    ultimately show ?thesis using False by simp
  qed
qed

lemma chain_rtrancl:
  assumes "chain es xs" "j < length xs"
  shows "i \<le> j \<Longrightarrow> (xs ! i, xs ! j) \<in> (edges_rel es)\<^sup>*"
  using assms(2)
proof (induction j)
  case 0
  then show ?case by simp
next
  case (Suc j)
  show ?case
  proof (cases "i = Suc j")
    case True
    then show ?thesis by simp
  next
    case False
    with Suc.prems have "i \<le> j" "j < length xs" by simp_all
    with Suc.IH have "(xs ! i, xs ! j) \<in> (edges_rel es)\<^sup>*" by simp
    moreover from assms(1) Suc.prems have "(xs ! j, xs ! Suc j) \<in> edges_rel es"
      by (simp add: chain_def)
    ultimately show ?thesis by (rule rtrancl_into_rtrancl)
  qed
qed

lemma chain_trancl:
  assumes "chain es xs" "i < j" "j < length xs"
  shows "(xs ! i, xs ! j) \<in> (edges_rel es)\<^sup>+"
proof -
  from assms have "(xs ! i, xs ! Suc i) \<in> edges_rel es" by (simp add: chain_def)
  moreover from assms have "(xs ! Suc i, xs ! j) \<in> (edges_rel es)\<^sup>*"
    by (intro chain_rtrancl) simp_all
  ultimately show ?thesis by (rule rtrancl_into_trancl2)
qed

lemma chain_append1:
  assumes "chain es ys" "ys \<noteq> []" "(last ys, t) \<in> edges_rel es"
  shows "chain es (ys @ [t])"
  unfolding chain_def
proof (intro allI impI)
  fix i assume i: "Suc i < length (ys @ [t])"
  show "((ys @ [t]) ! i, (ys @ [t]) ! Suc i) \<in> edges_rel es"
  proof (cases "Suc i < length ys")
    case True
    with assms(1) have "(ys ! i, ys ! Suc i) \<in> edges_rel es"
      unfolding chain_def by blast
    with True show ?thesis by (simp add: nth_append)
  next
    case False
    with i have "i = length ys - 1" "i < length ys" by simp_all
    with assms(2,3) show ?thesis by (simp add: nth_append last_conv_nth)
  qed
qed

lemma chain_snoc:
  assumes "chain es (p @ [n])" "(n, t) \<in> edges_rel es"
  shows "chain es ((p @ [n]) @ [t])"
  using chain_append1[of es "p @ [n]" t] assms by simp

lemma first_index_hit: "x \<in> set xs \<Longrightarrow> xs ! first_index xs x = x"
  by (induction xs) auto

lemma reported_on_cycle:
  assumes ch: "chain es (p @ [n])" and n: "n \<in> set p" and v: "v \<in> set (slice (indexOf p n) p)"
  shows "(v, v) \<in> (edges_rel es)\<^sup>+"
proof -
  let ?i = "first_index p n"
  let ?xs = "p @ [n]"
  from n have i: "?i < length p" by (rule first_index_less)
  from n v have "v \<in> set (drop ?i p)" by (simp add: indexOf_def slice_def)
  then obtain k where k: "k < length p - ?i" "v = p ! (?i + k)"
    by (auto simp: in_set_conv_nth)
  let ?j = "?i + k"
  from k i have j: "?j < length p" by simp
  have xi: "?xs ! ?i = n" using i n by (simp add: nth_append first_index_hit)
  have xj: "?xs ! ?j = v" using j k by (simp add: nth_append)
  have xl: "?xs ! length p = n" by simp
  have "(?xs ! ?j, ?xs ! length p) \<in> (edges_rel es)\<^sup>+"
    using ch j by (intro chain_trancl) simp_all
  moreover have "(?xs ! ?i, ?xs ! ?j) \<in> (edges_rel es)\<^sup>*"
    using ch j by (intro chain_rtrancl) simp_all
  ultimately show ?thesis unfolding xi xj xl by (rule trancl_rtrancl_trancl)
qed

lemma slice_nonempty: "n \<in> set p \<Longrightarrow> slice (indexOf p n) p \<noteq> []"
  using first_index_less[of n p] by (simp add: indexOf_def slice_def)

lemma dfs_sound:
  "cycles st = [] \<Longrightarrow> recursionStack st = set p \<Longrightarrow> chain es (p @ [n]) \<Longrightarrow>
     found_cycle es st (dfs es n p st)"
  "cycles st = [] \<Longrightarrow> recursionStack st = set (p @ [n]) \<Longrightarrow> chain es (p @ [n]) \<Longrightarrow>
     (\<forall>e\<in>set l. source e = n \<and> e \<in> set es) \<Longrightarrow>
     found_cycle es st (dfs_edges es n p l st)"
proof (induction es n p st and es n p l st rule: dfs_dfs_edges.induct)
  case (1 es nodeId path st)
  show ?case
  proof (cases "nodeId \<in> recursionStack st")
    case True
    with 1(3) have n: "nodeId \<in> set path" by simp
    show ?thesis
      using 1(2) slice_nonempty[OF n] reported_on_cycle[OF 1(4) n]
      by (simp add: dfs_on_stack[OF True] found_cycle_def)
  next
    case ns: False
    show ?thesis
    proof (cases "nodeId \<in> visited st")
      case True
      with ns 1(2) show ?thesis by (simp add: dfs_seen found_cycle_def)
    next
      case False
      let ?r = "dfs_edges es nodeId path (filter (\<lambda>e. source e = nodeId) es) (enter nodeId st)"
      have "found_cycle es (enter nodeId st) ?r"
        using 1(1)[OF ns False] 1(2,3,4) by (simp add: enter_def)
      moreover have "recursionStack (enter nodeId st) - {nodeId} = recursionStack st"
        using ns by (auto simp: enter_def)
      ultimately show ?thesis
        by (auto simp: dfs_new[OF ns False] Let_def found_cycle_def)
    qed
  qed
next
  case (2 es nodeId path st)
  then show ?case by (simp add: found_cycle_def)
next
  case (3 es nodeId path e rest st)
  let ?r = "dfs es (target e) (path @ [nodeId]) st"
  from 3(6) have "(nodeId, target e) \<in> edges_rel es" by (force simp: edges_rel_def)
  from chain_snoc[OF 3(5) this] have ch: "chain es ((path @ [nodeId]) @ [target e])" .
  from 3(1)[OF 3(3) 3(4) ch] have r: "found_cycle es st ?r" .
  show ?case
  proof (cases "fst ?r")
    case True
    with r show ?thesis by (simp add: Let_def found_cycle_def)
  next
    case False
    with r have c: "cycles (snd ?r) = []" and s: "recursionStack (snd ?r) = recursionStack st"
      by (simp_all add: found_cycle_def)
    from 3(2)[OF refl False c] s 3(4,5,6)
    have "found_cycle es (snd ?r) (dfs_edges es nodeId path rest (snd ?r))" by simp
    with False s show ?thesis by (simp add: Let_def found_cycle_def)
  qed
qed

lemma closed_rtrancl:
  assumes "\<forall>e\<in>set es. source e \<in> F \<longrightarrow> target e \<in> F"
    and "(a, b) \<in> (edges_rel es)\<^sup>*" and "a \<in> F"
  shows "b \<in> F"
  using assms(2,3)
proof (induction rule: rtrancl_induct)
  case base
  then show ?case .
next
  case (step y z)
  from step(2) obtain e where "e \<in> set es" "source e = y" "target e = z"
    by (auto simp: edges_rel_def)
  with assms(1) step(3)[OF step(4)] show ?case by blast
qed

lemma closed_acyclic_add:
  assumes good: "closed_acyclic es F" and n: "n \<notin> F"
    and succ: "\<forall>e\<in>set es. source e = n \<longrightarrow> target e \<in> F"
  shows "closed_acyclic es (insert n F)"
proof -
  from good have cl: "\<forall>e\<in>set es. source e \<in> F \<longrightarrow> target e \<in> F"
    and ac: "\<forall>v\<in>F. (v, v) \<notin> (edges_rel es)\<^sup>+"
    by (simp_all add: closed_acyclic_def)
  have "(n, n) \<notin> (edges_rel es)\<^sup>+"
  proof
    assume "(n, n) \<in> (edges_rel es)\<^sup>+"
    then obtain z where z: "(n, z) \<in> edges_rel es" "(z, n) \<in> (edges_rel es)\<^sup>*"
      by (blast dest: tranclD)
    from z(1) obtain e where "e \<in> set es" "source e = n" "target e = z"
      by (auto simp: edges_rel_def)
    with succ have "z \<in> F" by blast
    from closed_rtrancl[OF cl z(2) this] n show False by simp
  qed
  with cl ac succ show ?thesis by (auto simp: closed_acyclic_def)
qed

lemma dfs_complete:
  "closed_acyclic es (finished st) \<Longrightarrow> explored {n} st es (dfs es n p st)"
  "closed_acyclic es (finished st) \<Longrightarrow> explored (target ` set l) st es (dfs_edges es n p l st)"
proof (induction es n p st and es n p l st rule: dfs_dfs_edges.induct)
  case (1 es nodeId path st)
  show ?case
  proof (cases "nodeId \<in> recursionStack st")
    case True
    then show ?thesis by (simp add: dfs_on_stack explored_def)
  next
    case ns: False
    show ?thesis
    proof (cases "nodeId \<in> visited st")
      case True
      with ns 1(2) show ?thesis by (simp add: dfs_seen explored_def finished_def)
    next
      case False
      let ?l = "filter (\<lambda>e. source e = nodeId) es"
      let ?r = "dfs_edges es nodeId path ?l (enter nodeId st)"
      have fin: "finished (enter nodeId st) = finished st"
        using False by (auto simp: enter_def finished_def)
      with 1(1)[OF ns False, folded enter_def] 1(2)
      have ex: "explored (target ` set ?l) (enter nodeId st) es ?r"
        by simp
      show ?thesis
      proof (cases "fst ?r")
        case True
        then show ?thesis by (simp add: dfs_new[OF ns False] Let_def explored_def)
      next
        case nf: False
        let ?st' = "(snd ?r)\<lparr>recursionStack := recursionStack (snd ?r) - {nodeId}\<rparr>"
        from ex nf have stk: "recursionStack (snd ?r) = insert nodeId (recursionStack st)"
          and vis: "insert nodeId (visited st) \<subseteq> visited (snd ?r)"
          and good: "closed_acyclic es (finished (snd ?r))"
          and tg: "target ` set ?l \<subseteq> finished (snd ?r)"
          by (simp_all add: explored_def enter_def)
        have f': "finished ?st' = insert nodeId (finished (snd ?r))"
          using stk vis ns by (auto simp: finished_def)
        have notin: "nodeId \<notin> finished (snd ?r)" using stk by (simp add: finished_def)
        have succ: "\<forall>e\<in>set es. source e = nodeId \<longrightarrow> target e \<in> finished (snd ?r)"
          using tg by auto
        have "closed_acyclic es (finished ?st')"
          unfolding f' using good notin succ by (rule closed_acyclic_add)
        moreover have "recursionStack ?st' = recursionStack st" using stk ns by auto
        moreover have "visited st \<subseteq> visited ?st'" using vis by auto
        moreover have "nodeId \<in> finished ?st'" using f' by simp
        ultimately show ?thesis
          using nf by (simp add: dfs_new[OF ns False] Let_def explored_def)
      qed
    qed
  qed
next
  case (2 es nodeId path st)
  then show ?case by (simp add: explored_def)
next
  case (3 es nodeId path e rest st)
  let ?r = "dfs es (target e) (path @ [nodeId]) st"
  let ?r2 = "dfs_edges es nodeId path rest (snd ?r)"
  from 3(1)[OF 3(3)] have r: "explored {target e} st es ?r" .
  show ?case
  proof (cases "fst ?r")
    case True
    then show ?thesis by (simp add: Let_def explored_def)
  next
    case False
    with r have stk: "recursionStack (snd ?r) = recursionStack st"
      and vis: "visited st \<subseteq> visited (snd ?r)"
      and good: "closed_acyclic es (finished (snd ?r))"
      and t: "target e \<in> finished (snd ?r)"
      by (simp_all add: explored_def)
    from 3(2)[OF refl False good] have r2: "explored (target ` set rest) (snd ?r) es ?r2" .
    have "explored (target ` set (e # rest)) st es ?r2"
      unfolding explored_def
    proof (intro impI)
      assume nf: "\<not> fst ?r2"
      with r2 have stk2: "recursionStack (snd ?r2) = recursionStack (snd ?r)"
        and vis2: "visited (snd ?r) \<subseteq> visited (snd ?r2)"
        and good2: "closed_acyclic es (finished (snd ?r2))"
        and t2: "target ` set rest \<subseteq> finished (snd ?r2)"
        by (simp_all add: explored_def)
      from t stk2 vis2 have "target e \<in> finished (snd ?r2)" by (auto simp: finished_def)
      with stk stk2 vis vis2 good2 t2
      show "recursionStack (snd ?r2) = recursionStack st \<and> visited st \<subseteq> visited (snd ?r2) \<and>
            closed_acyclic es (finished (snd ?r2)) \<and> target ` set (e # rest) \<subseteq> finished (snd ?r2)"
        by auto
    qed
    with False show ?thesis by (simp add: Let_def)
  qed
qed

lemma dfs_root_call:
  assumes "cycles st = []" "recursionStack st = {}"
  shows "found_cycle es st (dfs es n [] st)"
  using dfs_sound(1)[of st "[]" es n] assms by (simp add: chain_def)

lemma dfs_roots_acyclic:
  assumes "acyclic (edges_rel es)"
  shows "cycles st = [] \<Longrightarrow> recursionStack st = {} \<Longrightarrow> cycles (dfs_roots es ns st) = []"
proof (induction ns arbitrary: st)
  case Nil
  then show ?case by simp
next
  case (Cons n ns)
  show ?case
  proof (cases "node_id n \<in> visited st")
    case True
    with Cons show ?thesis by simp
  next
    case False
    let ?r = "dfs es (node_id n) [] st"
    from dfs_root_call[OF Cons.prems] have f: "found_cycle es st ?r" .
    have "\<not> fst ?r"
    proof
      assume "fst ?r"
      with f obtain v where "(v, v) \<in> (edges_rel es)\<^sup>+"
        unfolding found_cycle_def by (cases "cycles (snd ?r)") auto
      with assms show False by (simp add: acyclic_def)
    qed
    with f Cons.prems have "cycles (snd ?r) = []" "recursionStack (snd ?r) = {}"
      by (simp_all add: found_cycle_def)
    from Cons.IH[OF this] False show ?thesis by simp
  qed
qed

lemma dfs_roots_first_on_cycle:
  "cycles st = [] \<Longrightarrow> recursionStack st = {} \<Longrightarrow> cycles (dfs_roots es ns st) \<noteq> [] \<Longrightarrow>
   (hd (cycles (dfs_roots es ns st)), hd (cycles (dfs_roots es ns st))) \<in> (edges_rel es)\<^sup>+"
proof (induction ns arbitrary: st)
  case Nil
  then show ?case by simp
next
  case (Cons n ns)
  show ?case
  proof (cases "node_id n \<in> visited st")
    case True
    with Cons show ?thesis by simp
  next
    case False
    let ?r = "dfs es (node_id n) [] st"
    from dfs_root_call[OF Cons.prems(1,2)] have f: "found_cycle es st ?r" .
    have step: "dfs_roots es (n # ns) st = dfs_roots es ns (snd ?r)" using False by simp
    show ?thesis
    proof (cases "fst ?r")
      case True
      with f have ne: "cycles (snd ?r) \<noteq> []"
        and cyc: "\<forall>v\<in>set (cycles (snd ?r)). (v, v) \<in> (edges_rel es)\<^sup>+"
        by (simp_all add: found_cycle_def)
      from dfs_roots_cycles_prefix[of es ns "snd ?r"] obtain ys where
        "cycles (dfs_roots es ns (snd ?r)) = cycles (snd ?r) @ ys" by blast
      with ne have "hd (cycles (dfs_roots es ns (snd ?r))) = hd (cycles (snd ?r))" by simp
      moreover from ne have "hd (cycles (snd ?r)) \<in> set (cycles (snd ?r))" by simp
      ultimately show ?thesis unfolding step using cyc by simp
    next
      case nf: False
      with f Cons.prems have "cycles (snd ?r) = []" "recursionStack (snd ?r) = {}"
        by (simp_all add: found_cycle_def)
      from Cons.IH[OF this] Cons.prems(3) show ?thesis unfolding step by simp
    qed
  qed
qed

lemma dfs_roots_complete:
  "cycles st = [] \<Longrightarrow> recursionStack st = {} \<Longrightarrow> closed_acyclic es (visited st) \<Longrightarrow>
   cycles (dfs_roots es ns st) = [] \<Longrightarrow>
   closed_acyclic es (visited (dfs_roots es ns st)) \<and>
   visited st \<union> node_id ` set ns \<subseteq> visited (dfs_roots es ns st)"
proof (induction ns arbitrary: st)
  case Nil
  then show ?case by simp
next
  case (Cons n ns)
  show ?case
  proof (cases "node_id n \<in> visited st")
    case True
    with Cons.IH[OF Cons.prems(1,2,3)] Cons.prems(4) show ?thesis by auto
  next
    case False
    let ?r = "dfs es (node_id n) [] st"
    have step: "dfs_roots es (n # ns) st = dfs_roots es ns (snd ?r)" using False by simp
    from dfs_root_call[OF Cons.prems(1,2)] have f: "found_cycle es st ?r" .
    have nf: "\<not> fst ?r"
    proof
      assume "fst ?r"
      with f have "cycles (snd ?r) \<noteq> []" by (simp add: found_cycle_def)
      moreover from dfs_roots_cycles_prefix[of es ns "snd ?r"] obtain ys where
        "cycles (dfs_roots es ns (snd ?r)) = cycles (snd ?r) @ ys" by blast
      ultimately show False using Cons.prems(4) unfolding step by simp
    qed
    with f Cons.prems have c: "cycles (snd ?r) = []" and s: "recursionStack (snd ?r) = {}"
      by (simp_all add: found_cycle_def)
    from Cons.prems(2,3) have "closed_acyclic es (finished st)" by (simp add: finished_def)
    from dfs_complete(1)[OF this, of "node_id n" "[]"] nf s
    have vis: "visited st \<subseteq> visited (snd ?r)"
      and good: "closed_acyclic es (visited (snd ?r))"
      and n: "node_id n \<in> visited (snd ?r)"
      by (simp_all add: explored_def finished_def)
    from Cons.IH[OF c s good] Cons.prems(4) vis n show ?thesis unfolding step by auto
  qed
qed

lemma detectCycles_acyclic: "acyclic (edge_rel g) \<Longrightarrow> detectCycles g = []"
  unfolding detectCycles_def edge_rel_def by (rule dfs_roots_acyclic) simp_all

lemma detectCycles_hd_on_cycle:
  "detectCycles g \<noteq> [] \<Longrightarrow> (hd (detectCycles g), hd (detectCycles g)) \<in> (edge_rel g)\<^sup>+"
  unfolding detectCycles_def edge_rel_def by (rule dfs_roots_first_on_cycle) simp_all

lemma detectCycles_empty:
  assumes "detectCycles g = []" and src: "\<forall>e\<in>set (edges g). source e \<in> set (node_ids g)"
  shows "acyclic (edge_rel g)"
proof -
  let ?init = "\<lparr>visited = {}, recursionStack = {}, cycles = []\<rparr>"
  let ?st = "dfs_roots (edges g) (nodes g) ?init"
  have c0: "cycles ?init = []" and s0: "recursionStack ?init = {}" by simp_all
  have g0: "closed_acyclic (edges g) (visited ?init)" by (simp add: closed_acyclic_def)
  have fin: "cycles ?st = []" using assms(1) by (simp add: detectCycles_def)
  from dfs_roots_complete[OF c0 s0 g0 fin]
  have good: "closed_acyclic (edges g) (visited ?st)" and all: "node_id ` set (nodes g) \<subseteq> visited ?st"
    by blast+
  show ?thesis
    unfolding acyclic_def
  proof (intro allI notI)
    fix x assume x: "(x, x) \<in> (edge_rel g)\<^sup>+"
    then obtain z where "(x, z) \<in> edge_rel g" by (blast dest: tranclD)
    then obtain e where "e \<in> set (edges g)" "source e = x"
      by (auto simp: edge_rel_def edges_rel_def)
    with src all have "x \<in> visited ?st" by (auto simp: node_ids_def)
    with good x show False by (simp add: closed_acyclic_def edge_rel_def)
  qed
qed

section \<open>Results of the two graph functions\<close>

lemma indexOf_first_index: "x \<in> set xs \<Longrightarrow> indexOf xs x = int (first_index xs x)"
  by (simp add: indexOf_def)

lemma topologicalSort_dag:
  assumes wf: "well_formed g" and ac: "acyclic_graph g"
    and plain: "''__proto__'' \<notin> set (node_ids g)"
  shows "\<exists>order. topologicalSort g = Inr order \<and> distinct order \<and>
           set order = set (node_ids g) \<and>
           (\<forall>e\<in>set (edges g). source e \<in> set order \<and> target e \<in> set order \<and>
              first_index order (source e) < first_index order (target e))"
proof -
  from wf have dist: "distinct (node_ids g)"
    and src: "\<forall>e\<in>set (edges g). source e \<in> set (node_ids g)"
    and tgt: "\<forall>e\<in>set (edges g). target e \<in> set (node_ids g)"
    by (simp_all add: well_formed_def)
  from topologicalSort_run[OF dist src] obtain final d where
    inv: "kahn_inv g d [] final"
    and run: "topologicalSort g =
             (if length final \<noteq> length (nodes g) then Inl (Error ''Graph contains cycles'')
              else Inr final)" by blast
  from ac have "acyclic (edge_rel g)" by (simp add: acyclic_graph_def)
  from kahn_complete[OF inv this src plain] have full: "set final = set (node_ids g)" .
  from inv have df: "distinct final" by (simp add: kahn_inv_def)
  have "length final = length (node_ids g)"
    using distinct_card[OF df] distinct_card[OF dist] full by simp
  then have "topologicalSort g = Inr final" using run by (simp add: node_ids_def)
  moreover have "\<forall>e\<in>set (edges g). source e \<in> set final \<and> target e \<in> set final \<and>
              first_index final (source e) < first_index final (target e)"
    using kahn_order[OF inv] tgt full by auto
  ultimately show ?thesis using df full by blast
qed

lemma topologicalSort_rejects:
  assumes dist: "distinct (node_ids g)"
    and src: "\<forall>e\<in>set (edges g). source e \<in> set (node_ids g)"
    and bad: "\<not> acyclic (edge_rel g) \<or> ''__proto__'' \<in> set (node_ids g)"
  shows "topologicalSort g = Inl (Error ''Graph contains cycles'')"
proof -
  from topologicalSort_run[OF dist src] obtain final d where
    inv: "kahn_inv g d [] final"
    and run: "topologicalSort g =
             (if length final \<noteq> length (nodes g) then Inl (Error ''Graph contains cycles'')
              else Inr final)" by blast
  from inv have df: "distinct final" and key: "set final \<subseteq> keyed_ids g"
    by (simp_all add: kahn_inv_def)
  from key have sub: "set final \<subseteq> set (node_ids g)" by (auto simp: keyed_ids_def)
  have "length final \<noteq> length (nodes g)"
  proof
    assume "length final = length (nodes g)"
    then have "card (set final) = card (set (node_ids g))"
      using distinct_card[OF df] distinct_card[OF dist] by (simp add: node_ids_def)
    with sub have full: "set final = set (node_ids g)" by (simp add: card_subset_eq)
    with key have "''__proto__'' \<notin> set (node_ids g)" by (auto simp: keyed_ids_def)
    with bad have "\<not> acyclic (edge_rel g)" by simp
    with kahn_all_acyclic[OF inv full src] show False by simp
  qed
  with run show ?thesis by simp
qed

lemma test_chain_well_formed: "well_formed test_chain"
  by (simp add: well_formed_def test_chain_def node_ids_def test_node_def test_edge_def)

lemma test_chain_acyclic: "acyclic_graph test_chain"
  unfolding acyclic_graph_def
  by (rule acyclic_by_rank[where f = "\<lambda>v. if v = ''1'' then 0 else if v = ''2'' then 1 else 2"])
     (auto simp: edge_rel_def edges_rel_def test_chain_def test_edge_def)

lemma test_cycle_well_formed: "well_formed test_cycle"
  by (simp add: well_formed_def test_cycle_def node_ids_def test_node_def test_edge_def)

lemma test_cycle_cyclic: "\<not> acyclic_graph test_cycle"
proof -
  have a: "(''1'', ''2'') \<in> edge_rel test_cycle" "(''2'', ''3'') \<in> edge_rel test_cycle"
    "(''3'', ''1'') \<in> edge_rel test_cycle"
    by (simp_all add: edge_rel_def edges_rel_def test_cycle_def test_edge_def)
  from a(1) have "(''1'', ''2'') \<in> (edge_rel test_cycle)\<^sup>+" by (rule r_into_trancl)
  from this a(2) have "(''1'', ''3'') \<in> (edge_rel test_cycle)\<^sup>+" by (rule trancl_into_trancl)
  from this a(3) have "(''1'', ''1'') \<in> (edge_rel test_cycle)\<^sup>+" by (rule trancl_into_trancl)
  then show ?thesis by (auto simp: acyclic_graph_def acyclic_def)
qed

lemma test_chain_plain: "''__proto__'' \<notin> set (node_ids test_chain)"
  by (simp add: test_chain_def node_ids_def test_node_def)

lemma proto_graph_well_formed: "well_formed proto_graph"
  by (simp add: well_formed_def proto_graph_def node_ids_def test_node_def test_edge_def)

lemma proto_graph_acyclic: "acyclic_graph proto_graph"
  unfolding acyclic_graph_def
  by (rule acyclic_by_rank[where f = "\<lambda>v. if v = ''2'' then 1 else 0"])
     (auto simp: edge_rel_def edges_rel_def proto_graph_def test_edge_def)

lemma proto_graph_named: "''__proto__'' \<in> set (node_ids proto_graph)"
  by (simp add: proto_graph_def node_ids_def test_node_def)

lemma proto_single_well_formed: "well_formed proto_single"
  by (simp add: well_formed_def proto_single_def node_ids_def test_node_def)

lemma proto_single_acyclic: "acyclic_graph proto_single"
  by (simp add: acyclic_graph_def edge_rel_def edges_rel_def proto_single_def acyclic_def)

lemma proto_single_named: "''__proto__'' \<in> set (node_ids proto_single)"
  by (simp add: proto_single_def node_ids_def test_node_def)

lemma stale_graph_well_formed: "well_formed stale_graph"
  by (simp add: well_formed_def stale_graph_def node_ids_def test_node_def test_edge_def)

lemma stale_graph_cyclic: "\<not> acyclic_graph stale_graph"
proof -
  have a: "(''1'', ''2'') \<in> edge_rel stale_graph" "(''2'', ''1'') \<in> edge_rel stale_graph"
    by (simp_all add: edge_rel_def edges_rel_def stale_graph_def test_edge_def)
  from a(1) have "(''1'', ''2'') \<in> (edge_rel stale_graph)\<^sup>+" by (rule r_into_trancl)
  from this a(2) have "(''1'', ''1'') \<in> (edge_rel stale_graph)\<^sup>+" by (rule trancl_into_trancl)
  then show ?thesis by (auto simp: acyclic_graph_def acyclic_def)
qed

lemma stale_graph_reach:
  assumes "(x, y) \<in> (edge_rel stale_graph)\<^sup>+" and "x \<in> {''1'', ''2'', ''4''}"
  shows "y \<in> {''1'', ''2''}"
  using assms
proof (induction rule: trancl.induct)
  case (r_into_trancl a b)
  then show ?case
    by (auto simp: edge_rel_def edges_rel_def stale_graph_def test_edge_def)
next
  case (trancl_into_trancl a b c)
  then have "b \<in> {''1'', ''2''}" by simp
  with trancl_into_trancl(2) show ?case
    by (auto simp: edge_rel_def edges_rel_def stale_graph_def test_edge_def)
qed

lemma stale_graph_four: "(''4'', ''4'') \<notin> (edge_rel stale_graph)\<^sup>+"
  using stale_graph_reach[of "''4''" "''4''"] by auto

section \<open>The execution loop\<close>

lemma sink_reaction:
  assumes "sink_returns f"
  shows "f entry s = (None, logged f entry s)"
proof -
  from assms have "fst (f entry s) = None" unfolding sink_returns_def by blast
  then show ?thesis by (cases "f entry s") (simp add: logged_def)
qed



lemma log_and_rethrow_quiet:
  "sink_returns f \<Longrightarrow> log_and_rethrow f prefix caught s = (caught, logged f (LogError, prefix @ message caught) s)"
  by (simp add: log_and_rethrow_def sink_reaction)

lemma executeApiNode_quiet:
  assumes "sink_returns f"
  shows "fst (executeApiNode rt f node context s) =
     (case node_data node of
        ApiNodeData d \<Rightarrow>
          (case axios rt (api_request rt d context) of
             Inl err \<Rightarrow> Inl err
           | Inr r \<Rightarrow>
               if stringify_undefined (resp_data r)
               then Inl (TypeError ''Cannot read properties of undefined (reading 'length')'')
               else Inr (JObj [(''status'', JNum (status r)),
                               (''statusText'', JStr (statusText r)),
                               (''headers'', resp_headers r),
                               (''data'', resp_data r)]))
      | _ \<Rightarrow> Inl (TypeError ''Cannot read properties of undefined (reading 'replace')''))"
  by (simp add: executeApiNode_def sink_reaction[OF assms] log_and_rethrow_quiet[OF assms]
      split: node_data.splits sum.splits)































lemma executeGraph_cyclic:
  assumes src: "\<forall>e\<in>set (edges g). source e \<in> set (node_ids g)" and cyc: "\<not> acyclic (edge_rel g)"
  shows "executeGraph rt cb g s =
           (Inl (Error (''Graph contains cycles: '' @ join_with '' -> '' (detectCycles g))), s)"
    and "detectCycles g \<noteq> []"
proof -
  show ne: "detectCycles g \<noteq> []" using detectCycles_empty[OF _ src] cyc by auto
  then show "executeGraph rt cb g s =
           (Inl (Error (''Graph contains cycles: '' @ join_with '' -> '' (detectCycles g))), s)"
    by (simp add: executeGraph_def Let_def)
qed













section \<open>Token scanning and the lookup object\<close>

lemma match_token_hit:
  assumes "p \<noteq> []" "CHR ''}'' \<notin> set p"
  shows "match_token (''{{'' @ p @ ''}}'' @ post) = Some (p, post)"
proof -
  have t: "takeWhile (\<lambda>c. c \<noteq> CHR ''}'') (p @ CHR ''}'' # CHR ''}'' # post) = p"
    using assms(2) by (induction p) auto
  have d: "dropWhile (\<lambda>c. c \<noteq> CHR ''}'') (p @ CHR ''}'' # CHR ''}'' # post) =
             CHR ''}'' # CHR ''}'' # post"
    using assms(2) by (induction p) auto
  show ?thesis using assms(1) by (simp add: t d Let_def)
qed

lemma replace_tokens_token:
  assumes "p \<noteq> []" "CHR ''}'' \<notin> set p"
  shows "replace_tokens callback (''{{'' @ p @ ''}}'' @ post) =
           callback (''{{'' @ p @ ''}}'') p @ replace_tokens callback post"
proof -
  have "replace_tokens callback (CHR ''{'' # (CHR ''{'' # p @ ''}}'' @ post)) =
          (case match_token (CHR ''{'' # (CHR ''{'' # p @ ''}}'' @ post)) of
             Some (q, rest) \<Rightarrow> callback (''{{'' @ q @ ''}}'') q @ replace_tokens callback rest
           | None \<Rightarrow> CHR ''{'' # replace_tokens callback (CHR ''{'' # p @ ''}}'' @ post))"
    by (rule replace_tokens.simps(2))
  moreover have "match_token (CHR ''{'' # (CHR ''{'' # p @ ''}}'' @ post)) = Some (p, post)"
    using match_token_hit[OF assms, of post] by simp
  ultimately show ?thesis by simp
qed

lemma string_of_nat_small: "n < 10 \<Longrightarrow> string_of_nat n = [digit_char n]"
  by (subst string_of_nat.simps) simp

lemma string_of_nat_large:
  "\<not> n < 10 \<Longrightarrow> string_of_nat n = string_of_nat (n div 10) @ [digit_char (n mod 10)]"
  by (subst string_of_nat.simps) simp

lemma string_of_nat_nonempty: "string_of_nat n \<noteq> []"
  by (cases "n < 10") (simp_all add: string_of_nat_small string_of_nat_large)

lemma digit_char_inj:
  assumes "a < 10" "b < 10" "digit_char a = digit_char b"
  shows "a = b"
proof -
  from assms(3) have "(of_char (digit_char a) :: nat) = of_char (digit_char b)" by simp
  with assms(1,2) show ?thesis by (simp add: digit_char_def)
qed

lemma string_of_nat_inj: "string_of_nat n = string_of_nat m \<Longrightarrow> n = m"
proof (induction n arbitrary: m rule: less_induct)
  case (less n)
  show ?case
  proof (cases "n < 10")
    case True
    show ?thesis
    proof (cases "m < 10")
      case m: True
      with True less.prems show ?thesis
        by (simp add: string_of_nat_small digit_char_inj)
    next
      case False
      with True less.prems string_of_nat_nonempty[of "m div 10"] show ?thesis
        by (simp add: string_of_nat_small string_of_nat_large)
    qed
  next
    case nl: False
    show ?thesis
    proof (cases "m < 10")
      case True
      with nl less.prems string_of_nat_nonempty[of "n div 10"] show ?thesis
        by (simp add: string_of_nat_small string_of_nat_large)
    next
      case False
      with nl less.prems have "string_of_nat (n div 10) = string_of_nat (m div 10)"
        and "digit_char (n mod 10) = digit_char (m mod 10)"
        by (simp_all add: string_of_nat_large)
      moreover from nl have "n div 10 < n" by simp
      ultimately have "n div 10 = m div 10" "n mod 10 = m mod 10"
        using less.IH digit_char_inj[of "n mod 10" "m mod 10"] by auto
      then show ?thesis by (metis div_mult_mod_eq)
    qed
  qed
qed

lemma node_name_inj: "node_name i = node_name j \<Longrightarrow> i = j"
  by (simp add: node_name_def string_of_nat_inj)

lemma array_index_node_name: "array_index (node_name i) = None"
  by (simp add: array_index_def parse_nat_def node_name_def is_digit_def)

lemma array_index_data: "array_index ''data'' = None"
  by (simp add: array_index_def parse_nat_def is_digit_def)

lemma js_set_fresh:
  "k \<notin> fst ` set obj \<Longrightarrow> array_index k = None \<Longrightarrow> k \<noteq> ''__proto__'' \<Longrightarrow>
   js_set obj k v = obj @ [(k, v)]"
  by (simp add: js_set_def define_property_def)

lemma node_name_plain: "node_name i \<noteq> ''__proto__''"
  by (simp add: node_name_def)

lemma number_outputs_eq:
  "fst ` set acc \<subseteq> node_name ` {..<i} \<Longrightarrow>
   number_outputs outputs i acc = acc @ zip (map node_name [i..<i + length outputs]) outputs"
proof (induction outputs arbitrary: i acc)
  case Nil
  show ?case by simp
next
  case (Cons v rest)
  have fresh: "node_name i \<notin> fst ` set acc"
  proof
    assume "node_name i \<in> fst ` set acc"
    with Cons.prems obtain j where "j < i" "node_name i = node_name j" by auto
    then show False by (auto dest: node_name_inj)
  qed
  let ?acc = "acc @ [(node_name i, v)]"
  have step: "js_set acc (''node'' @ string_of_nat i) v = ?acc"
    using js_set_fresh[OF fresh array_index_node_name node_name_plain] by (simp add: node_name_def)
  have "fst ` set ?acc \<subseteq> node_name ` {..<Suc i}" using Cons.prems by auto
  from Cons.IH[OF this]
  have ih: "number_outputs rest (Suc i) ?acc =
          ?acc @ zip (map node_name [Suc i..<Suc i + length rest]) rest" .
  have "[i..<Suc i + length rest] = i # [Suc i..<Suc i + length rest]"
    by (rule upt_conv_Cons) simp
  then have up: "[i..<i + length (v # rest)] = i # [Suc i..<Suc i + length rest]" by simp
  have "number_outputs (v # rest) i acc = number_outputs rest (Suc i) ?acc"
    by (simp only: number_outputs.simps step)
  also have "\<dots> = acc @ zip (map node_name (i # [Suc i..<Suc i + length rest])) (v # rest)"
    by (simp only: ih) simp
  finally show ?case by (simp only: up)
qed

lemma allData_eq: "allData outputs = lookup_object (js_values outputs)"
proof (cases "js_values outputs")
  case Nil
  then show ?thesis by (simp add: allData_def lookup_object_def Let_def)
next
  case (Cons first rest)
  let ?acc = "zip (map node_name [0..<length (js_values outputs)]) (js_values outputs)"
  have acc: "number_outputs (js_values outputs) 0 [] = ?acc"
    using number_outputs_eq[of "[]" 0 "js_values outputs"] by simp
  have "''data'' \<notin> fst ` set ?acc"
    by (auto simp: node_name_def dest!: set_zip_leftD)
  from js_set_fresh[OF this array_index_data]
  have "js_set ?acc ''data'' first = ?acc @ [(''data'', first)]" by simp
  with Cons acc show ?thesis by (simp add: allData_def lookup_object_def Let_def)
qed

lemma interpolate_match_eq:
  "interpolate_match rt outputs match path =
     (let val = getNestedValue rt (JObj (lookup_object (js_values outputs))) (trim path)
      in if val = JUndefined then match
         else case js_String rt val of None \<Rightarrow> match | Some s \<Rightarrow> s)"
  by (simp add: interpolate_match_def allData_eq Let_def)

lemma match_token_some:
  assumes "match_token s = Some (q, rest)"
  shows "s = ''{{'' @ q @ ''}}'' @ rest \<and> q \<noteq> [] \<and> CHR ''}'' \<notin> set q"
proof (cases s rule: match_token.cases)
  case (1 a b t)
  let ?p = "takeWhile (\<lambda>c. c \<noteq> CHR ''}'') t"
  let ?r = "dropWhile (\<lambda>c. c \<noteq> CHR ''}'') t"
  from assms 1 have ab: "a = CHR ''{''" "b = CHR ''{''" and q: "q = ?p" "?p \<noteq> []"
    and r: "take 2 ?r = ''}}''" "rest = drop 2 ?r"
    by (auto simp: Let_def split: if_splits)
  have "?r = take 2 ?r @ drop 2 ?r" by simp
  with r have "?r = ''}}'' @ rest" by simp
  moreover have "t = ?p @ ?r" by simp
  ultimately have "t = q @ ''}}'' @ rest" using q by simp
  moreover have "CHR ''}'' \<notin> set q" unfolding q by (auto dest: set_takeWhileD)
  ultimately show ?thesis using 1 ab q by simp
qed (use assms in simp_all)

lemma token_at_match: "token_at t i \<longleftrightarrow> match_token (drop i t) \<noteq> None"
proof
  assume "token_at t i"
  then obtain p where p: "p \<noteq> []" "CHR ''}'' \<notin> set p"
    "take (length p + 4) (drop i t) = ''{{'' @ p @ ''}}''"
    unfolding token_at_def by blast
  have "drop i t = take (length p + 4) (drop i t) @ drop (length p + 4) (drop i t)"
    by (rule append_take_drop_id[symmetric])
  with p(3) have "drop i t = ''{{'' @ p @ ''}}'' @ drop (length p + 4) (drop i t)"
    by (simp only: append_assoc)
  with match_token_hit[OF p(1,2), of "drop (length p + 4) (drop i t)"]
  show "match_token (drop i t) \<noteq> None" by simp
next
  assume "match_token (drop i t) \<noteq> None"
  then obtain q rest where "match_token (drop i t) = Some (q, rest)" by auto
  from match_token_some[OF this]
  have d: "drop i t = (''{{'' @ q @ ''}}'') @ rest" and q: "q \<noteq> []" "CHR ''}'' \<notin> set q"
    by simp_all
  have pre: "take (length xs) (xs @ ys) = xs" for xs ys :: string by simp
  have "length (''{{'' @ q @ ''}}'') = length q + 4" by simp
  with pre[of "''{{'' @ q @ ''}}''" rest]
  have "take (length q + 4) ((''{{'' @ q @ ''}}'') @ rest) = ''{{'' @ q @ ''}}''" by (simp only:)
  with d have "take (length q + 4) (drop i t) = ''{{'' @ q @ ''}}''" by (simp only:)
  with q show "token_at t i" unfolding token_at_def by blast
qed

lemma token_at_Cons: "token_at (c # cs) (Suc i) = token_at cs i"
  by (simp add: token_at_def)

lemma replace_tokens_before:
  "\<forall>i<length pre. \<not> token_at (pre @ s) i \<Longrightarrow>
   replace_tokens callback (pre @ s) = pre @ replace_tokens callback s"
proof (induction pre)
  case Nil
  show ?case by simp
next
  case (Cons c pre)
  from Cons.prems have "\<not> token_at ((c # pre) @ s) 0" by auto
  then have none: "match_token (c # pre @ s) = None"
    by (cases "match_token (c # pre @ s)") (simp_all add: token_at_match)
  have "\<forall>i<length pre. \<not> token_at (pre @ s) i"
  proof (intro allI impI)
    fix i assume "i < length pre"
    with Cons.prems have "\<not> token_at ((c # pre) @ s) (Suc i)" by auto
    then show "\<not> token_at (pre @ s) i" by (simp add: token_at_Cons)
  qed
  from Cons.IH[OF this] none show ?case by simp
qed

lemma first_token:
  "(\<forall>i<length t. \<not> token_at t i) \<or>
   (\<exists>pre p post. t = pre @ ''{{'' @ p @ ''}}'' @ post \<and> p \<noteq> [] \<and> CHR ''}'' \<notin> set p \<and>
      (\<forall>i<length pre. \<not> token_at t i))"
proof (induction t)
  case Nil
  show ?case by simp
next
  case (Cons c cs)
  show ?case
  proof (cases "match_token (c # cs)")
    case (Some m)
    obtain q rest where "m = (q, rest)" by (cases m)
    with Some match_token_some[of "c # cs" q rest]
    have "c # cs = [] @ ''{{'' @ q @ ''}}'' @ rest \<and> q \<noteq> [] \<and> CHR ''}'' \<notin> set q \<and>
          (\<forall>i<length ([]::string). \<not> token_at (c # cs) i)" by simp
    then show ?thesis by blast
  next
    case None
    then have zero: "\<not> token_at (c # cs) 0" by (simp add: token_at_match)
    from Cons.IH show ?thesis
    proof
      assume a: "\<forall>i<length cs. \<not> token_at cs i"
      have "\<forall>i<length (c # cs). \<not> token_at (c # cs) i"
      proof (intro allI impI)
        fix i assume "i < length (c # cs)"
        with a zero show "\<not> token_at (c # cs) i" by (cases i) (simp_all add: token_at_Cons)
      qed
      then show ?thesis by blast
    next
      assume "\<exists>pre p post. cs = pre @ ''{{'' @ p @ ''}}'' @ post \<and> p \<noteq> [] \<and> CHR ''}'' \<notin> set p \<and>
                (\<forall>i<length pre. \<not> token_at cs i)"
      then obtain pre p post where cs: "cs = pre @ ''{{'' @ p @ ''}}'' @ post" "p \<noteq> []"
        "CHR ''}'' \<notin> set p" and a: "\<forall>i<length pre. \<not> token_at cs i"
        by blast
      have "\<forall>i<length (c # pre). \<not> token_at (c # cs) i"
      proof (intro allI impI)
        fix i assume "i < length (c # pre)"
        with a zero show "\<not> token_at (c # cs) i" by (cases i) (simp_all add: token_at_Cons)
      qed
      moreover from cs(1) have "c # cs = (c # pre) @ ''{{'' @ p @ ''}}'' @ post" by simp
      ultimately show ?thesis using cs(2,3) by blast
    qed
  qed
qed

lemma replace_tokens_none:
  assumes "\<forall>i<length t. \<not> token_at t i"
  shows "replace_tokens callback t = t"
  using replace_tokens_before[of t "[]" callback] assms by simp

lemma interpolateVariables_first:
  assumes "p \<noteq> []" "CHR ''}'' \<notin> set p"
    and "\<forall>i<length pre. \<not> token_at (pre @ ''{{'' @ p @ ''}}'' @ post) i"
  shows "interpolateVariables rt (pre @ ''{{'' @ p @ ''}}'' @ post) outputs =
           pre @ interpolate_match rt outputs (''{{'' @ p @ ''}}'') p @
           interpolateVariables rt post outputs"
  unfolding interpolateVariables_def
  by (simp only: replace_tokens_before[OF assms(3)] replace_tokens_token[OF assms(1,2)])

lemma no_token_list: "list_all (\<lambda>i. match_token (drop i t) = None) [0..<n] \<Longrightarrow> \<forall>i<n. \<not> token_at t i"
  by (simp add: list_all_iff token_at_match)

section \<open>Claims about ordering and cycle rejection\<close>

text \<open>
  Claim C1 does not hold of the code, because of one node id. For an acyclic graph of
  the data model (node ids unique, every edge between existing nodes) in which no node
  is called \<open>__proto__\<close>, \<open>topologicalSort\<close> returns a sequence that contains every
  node id exactly once, and for every edge the JavaScript index (\<open>indexOf\<close>) of its
  source in that sequence is strictly below that of its target. When a node is called
  \<open>__proto__\<close>, its in-degree is never stored in the plain object that serves as the
  table, the node is never queued, and \<open>topologicalSort\<close> throws the error of a
  cyclic graph although the graph has no cycle. (\<open>detectCycles\<close> keeps node ids in a
  \<open>Set\<close> and treats this id like any other.)
\<close>

theorem topologicalSort_orders_dag:
  assumes "well_formed g" and "acyclic_graph g"
  shows "(''__proto__'' \<notin> set (node_ids g) \<longrightarrow>
            (\<exists>order. topologicalSort g = Inr order \<and> distinct order \<and>
               set order = set (node_ids g) \<and> length order = length (nodes g) \<and>
               (\<forall>e\<in>set (edges g).
                  0 \<le> indexOf order (source e) \<and>
                  indexOf order (source e) < indexOf order (target e)))) \<and>
         (''__proto__'' \<in> set (node_ids g) \<longrightarrow>
            topologicalSort g = Inl (Error ''Graph contains cycles''))"
proof (intro conjI impI)
  assume plain: "''__proto__'' \<notin> set (node_ids g)"
  from topologicalSort_dag[OF assms plain] obtain order where
    o: "topologicalSort g = Inr order" "distinct order" "set order = set (node_ids g)"
    and e: "\<forall>e\<in>set (edges g). source e \<in> set order \<and> target e \<in> set order \<and>
              first_index order (source e) < first_index order (target e)"
    by blast
  from assms(1) have "distinct (node_ids g)" by (simp add: well_formed_def)
  from distinct_card[OF this] distinct_card[OF o(2)] o(3)
  have "length order = length (node_ids g)" by simp
  then have "length order = length (nodes g)" by (simp add: node_ids_def)
  moreover from e have "\<forall>e\<in>set (edges g).
              0 \<le> indexOf order (source e) \<and>
              indexOf order (source e) < indexOf order (target e)"
    by (simp add: indexOf_def)
  ultimately show "\<exists>order. topologicalSort g = Inr order \<and> distinct order \<and>
               set order = set (node_ids g) \<and> length order = length (nodes g) \<and>
               (\<forall>e\<in>set (edges g).
                  0 \<le> indexOf order (source e) \<and>
                  indexOf order (source e) < indexOf order (target e))"
    using o by blast
next
  assume named: "''__proto__'' \<in> set (node_ids g)"
  from assms(1) have "distinct (node_ids g)"
    and "\<forall>e\<in>set (edges g). source e \<in> set (node_ids g)"
    by (simp_all add: well_formed_def)
  from topologicalSort_rejects[OF this] named
  show "topologicalSort g = Inl (Error ''Graph contains cycles'')" by simp
qed

theorem topologicalSort_orders_dag_witness:
  "well_formed proto_graph \<and> acyclic_graph proto_graph \<and>
   ''__proto__'' \<in> set (node_ids proto_graph) \<and>
   topologicalSort proto_graph = Inl (Error ''Graph contains cycles'') \<and>
   well_formed test_chain \<and> acyclic_graph test_chain \<and>
   ''__proto__'' \<notin> set (node_ids test_chain) \<and>
   topologicalSort test_chain = Inr [''1'', ''2'', ''3''] \<and>
   (\<exists>order. topologicalSort test_chain = Inr order \<and> distinct order \<and>
      set order = set (node_ids test_chain) \<and> length order = length (nodes test_chain) \<and>
      (\<forall>e\<in>set (edges test_chain).
         0 \<le> indexOf order (source e) \<and>
         indexOf order (source e) < indexOf order (target e)))"
proof -
  have r: "topologicalSort test_chain = Inr [''1'', ''2'', ''3'']" by code_simp
  from topologicalSort_orders_dag[OF proto_graph_well_formed proto_graph_acyclic]
    proto_graph_named
  have p: "topologicalSort proto_graph = Inl (Error ''Graph contains cycles'')" by blast
  from topologicalSort_orders_dag[OF test_chain_well_formed test_chain_acyclic] test_chain_plain
  have c: "\<exists>order. topologicalSort test_chain = Inr order \<and> distinct order \<and>
      set order = set (node_ids test_chain) \<and> length order = length (nodes test_chain) \<and>
      (\<forall>e\<in>set (edges test_chain).
         0 \<le> indexOf order (source e) \<and>
         indexOf order (source e) < indexOf order (target e))"
    by blast
  from proto_graph_well_formed proto_graph_acyclic proto_graph_named p
    test_chain_well_formed test_chain_acyclic test_chain_plain r c
  show ?thesis by (intro conjI)
qed

text \<open>
  Claim C2 holds except for the same node id as in C1. For every graph of the data
  model that contains a cycle, \<open>topologicalSort\<close> throws the error of its length
  check (\<open>Graph contains cycles\<close>) and \<open>detectCycles\<close> returns a non-empty
  sequence. For every acyclic graph \<open>detectCycles\<close> returns the empty sequence;
  \<open>topologicalSort\<close> returns an order when no node is called \<open>__proto__\<close>, and
  throws the same error when one is.
\<close>

theorem cycle_rejection:
  assumes "well_formed g"
  shows "(\<not> acyclic_graph g \<longrightarrow>
            topologicalSort g = Inl (Error ''Graph contains cycles'') \<and> detectCycles g \<noteq> []) \<and>
         (acyclic_graph g \<longrightarrow>
            detectCycles g = [] \<and>
            (''__proto__'' \<notin> set (node_ids g) \<longrightarrow> (\<exists>order. topologicalSort g = Inr order)) \<and>
            (''__proto__'' \<in> set (node_ids g) \<longrightarrow>
               topologicalSort g = Inl (Error ''Graph contains cycles'')))"
proof -
  from assms have dist: "distinct (node_ids g)"
    and src: "\<forall>e\<in>set (edges g). source e \<in> set (node_ids g)"
    by (simp_all add: well_formed_def)
  have 1: "topologicalSort g = Inl (Error ''Graph contains cycles'')" if "\<not> acyclic_graph g"
    using topologicalSort_rejects[OF dist src] that by (simp add: acyclic_graph_def)
  have 2: "detectCycles g \<noteq> []" if "\<not> acyclic_graph g"
    using detectCycles_empty[OF _ src] that by (auto simp: acyclic_graph_def)
  have 3: "detectCycles g = []" if "acyclic_graph g"
    using that by (simp add: acyclic_graph_def detectCycles_acyclic)
  have 4: "\<exists>order. topologicalSort g = Inr order"
    if "acyclic_graph g" "''__proto__'' \<notin> set (node_ids g)"
    using topologicalSort_dag[OF assms that] by blast
  have 5: "topologicalSort g = Inl (Error ''Graph contains cycles'')"
    if "''__proto__'' \<in> set (node_ids g)"
    using topologicalSort_rejects[OF dist src] that by simp
  from 1 2 3 4 5 show ?thesis by blast
qed

theorem cycle_rejection_witness:
  "well_formed test_cycle \<and> \<not> acyclic_graph test_cycle \<and>
   topologicalSort test_cycle = Inl (Error ''Graph contains cycles'') \<and>
   detectCycles test_cycle \<noteq> [] \<and>
   well_formed test_chain \<and> acyclic_graph test_chain \<and>
   ''__proto__'' \<notin> set (node_ids test_chain) \<and>
   detectCycles test_chain = [] \<and> (\<exists>order. topologicalSort test_chain = Inr order) \<and>
   well_formed proto_single \<and> acyclic_graph proto_single \<and>
   ''__proto__'' \<in> set (node_ids proto_single) \<and>
   detectCycles proto_single = [] \<and>
   topologicalSort proto_single = Inl (Error ''Graph contains cycles'')"
  using cycle_rejection[OF test_cycle_well_formed] cycle_rejection[OF test_chain_well_formed]
    cycle_rejection[OF proto_single_well_formed]
    test_cycle_well_formed test_cycle_cyclic test_chain_well_formed test_chain_acyclic
    test_chain_plain proto_single_well_formed proto_single_acyclic proto_single_named
  by simp

section \<open>Claims about the orchestrator\<close>

text \<open>
  Claim C3 holds except for the report. For every graph of the data model that
  contains a cycle, \<open>executeGraph\<close> throws before anything else happens: the caller's
  state comes back unchanged whatever the callbacks are, so neither callback was
  called, no executor ran and no execution context is produced. The message lists the
  ids returned by \<open>detectCycles\<close>, a non-empty list whose first id lies on a cycle.
  The list is not the set of offending nodes: \<open>dfs\<close> returns early when it finds a
  cycle and leaves the nodes of its path on the recursion stack, so that a later root
  which reaches one of them reports a node of its own path. In the graph with the
  edges 1 \<open>\<rightarrow>\<close> 2, 2 \<open>\<rightarrow>\<close> 1, 3 \<open>\<rightarrow>\<close> 4 and 4 \<open>\<rightarrow>\<close> 1 the
  message names node 4, which lies on no cycle.
\<close>

theorem executeGraph_rejects_cycles:
  assumes "well_formed g" and "\<not> acyclic_graph g"
  shows "executeGraph rt cb g s =
           (Inl (Error (''Graph contains cycles: '' @ join_with '' -> '' (detectCycles g))), s) \<and>
         detectCycles g \<noteq> [] \<and>
         (hd (detectCycles g), hd (detectCycles g)) \<in> (edge_rel g)\<^sup>+"
proof -
  from assms have src: "\<forall>e\<in>set (edges g). source e \<in> set (node_ids g)"
    and cyc: "\<not> acyclic (edge_rel g)"
    by (simp_all add: well_formed_def acyclic_graph_def)
  from executeGraph_cyclic[OF src cyc] detectCycles_hd_on_cycle[of g] show ?thesis by simp
qed

theorem executeGraph_rejects_cycles_witness:
  "well_formed stale_graph \<and> \<not> acyclic_graph stale_graph \<and>
   executeGraph serving_runtime recording stale_graph [] =
     (Inl (Error ''Graph contains cycles: 1 -> 2 -> 4''), []) \<and>
   (''1'', ''1'') \<in> (edge_rel stale_graph)\<^sup>+ \<and>
   (''4'', ''4'') \<notin> (edge_rel stale_graph)\<^sup>+"
proof -
  have d: "detectCycles stale_graph = [''1'', ''2'', ''4'']" by code_simp
  from executeGraph_rejects_cycles[OF stale_graph_well_formed stale_graph_cyclic,
      of serving_runtime recording "[]"]
  show ?thesis using stale_graph_well_formed stale_graph_cyclic stale_graph_four by (simp add: d)
qed












section \<open>Claims about interpolation, evaluation and the HTTP executor\<close>

text \<open>
  Claim C5, as stated, fails: with the single output \<open>0\<close> the template
  \<open>{{data}}\<close> comes back unchanged, although the first output exists and would print
  as \<open>0\<close>. \<open>spec_interpolateVariables\<close> is the function of the claim, which binds
  \<open>data\<close> to the first output whatever its value.
\<close>

theorem data_unbound_for_falsy_output:
  "interpolateVariables bare_runtime ''{{data}}'' [(''n0'', JNum 0)] = ''{{data}}'' \<and>
   spec_interpolateVariables bare_runtime ''{{data}}'' [(''n0'', JNum 0)] = ''0''"
  by code_simp

text \<open>
  Claim C5, amended. Every template either has no occurrence of a token \<open>{{p}}\<close>
  (\<open>p\<close> non-empty, without \<open>}\<close>) and is returned unchanged, or has a first one. The
  first occurrence is replaced by \<open>String\<close> of the value found by resolving the
  trimmed dot-path \<open>p\<close> in the lookup object, and left verbatim when that value is
  \<open>undefined\<close> or cannot be converted; the text before it is unchanged, whatever
  braces it holds, and the text after it is treated in the same way. In the lookup
  object the i-th output is bound to \<open>node<i>\<close>, and the first output is bound to
  \<open>data\<close> only when it is truthy.
\<close>

theorem interpolateVariables_tokens:
  "(p \<noteq> [] \<and> CHR ''}'' \<notin> set p \<and>
    (\<forall>i<length pre. \<not> token_at (pre @ ''{{'' @ p @ ''}}'' @ post) i) \<longrightarrow>
      interpolateVariables rt (pre @ ''{{'' @ p @ ''}}'' @ post) outputs =
        pre @
        (let val = getNestedValue rt (JObj (lookup_object (js_values outputs))) (trim p)
         in if val = JUndefined then ''{{'' @ p @ ''}}''
            else case js_String rt val of None \<Rightarrow> ''{{'' @ p @ ''}}'' | Some s \<Rightarrow> s) @
        interpolateVariables rt post outputs) \<and>
   ((\<forall>i<length t. \<not> token_at t i) \<longrightarrow> interpolateVariables rt t outputs = t) \<and>
   ((\<forall>i<length t. \<not> token_at t i) \<or>
    (\<exists>pre p post. t = pre @ ''{{'' @ p @ ''}}'' @ post \<and> p \<noteq> [] \<and> CHR ''}'' \<notin> set p \<and>
       (\<forall>i<length pre. \<not> token_at t i)))"
proof (intro conjI impI)
  assume "p \<noteq> [] \<and> CHR ''}'' \<notin> set p \<and>
    (\<forall>i<length pre. \<not> token_at (pre @ ''{{'' @ p @ ''}}'' @ post) i)"
  then have a: "p \<noteq> []" "CHR ''}'' \<notin> set p"
    "\<forall>i<length pre. \<not> token_at (pre @ ''{{'' @ p @ ''}}'' @ post) i" by blast+
  show "interpolateVariables rt (pre @ ''{{'' @ p @ ''}}'' @ post) outputs =
        pre @
        (let val = getNestedValue rt (JObj (lookup_object (js_values outputs))) (trim p)
         in if val = JUndefined then ''{{'' @ p @ ''}}''
            else case js_String rt val of None \<Rightarrow> ''{{'' @ p @ ''}}'' | Some s \<Rightarrow> s) @
        interpolateVariables rt post outputs"
    by (simp only: interpolateVariables_first[OF a] interpolate_match_eq)
next
  assume "\<forall>i<length t. \<not> token_at t i"
  then show "interpolateVariables rt t outputs = t"
    by (simp add: interpolateVariables_def replace_tokens_none)
next
  show "(\<forall>i<length t. \<not> token_at t i) \<or>
    (\<exists>pre p post. t = pre @ ''{{'' @ p @ ''}}'' @ post \<and> p \<noteq> [] \<and> CHR ''}'' \<notin> set p \<and>
       (\<forall>i<length pre. \<not> token_at t i))"
    by (rule first_token)
qed

theorem interpolateVariables_tokens_witness:
  "''data.id'' \<noteq> [] \<and> CHR ''}'' \<notin> set ''data.id'' \<and>
   interpolateVariables bare_runtime (''{id: '' @ ''{{'' @ ''data.id'' @ ''}}'' @ ''}'') id_output =
     ''{id: 7}'' \<and>
   interpolateVariables bare_runtime ''{id: }'' id_output = ''{id: }'' \<and>
   interpolateVariables bare_runtime ([] @ ''{{'' @ ''data.name'' @ ''}}'' @ []) named_output = ''x'' \<and>
   interpolateVariables bare_runtime ([] @ ''{{'' @ ''missing.path'' @ ''}}'' @ []) named_output =
     ''{{missing.path}}''"
proof -
  have h: "''data.id'' \<noteq> [] \<and> CHR ''}'' \<notin> set ''data.id'' \<and>
     (\<forall>i<length ''{id: ''. \<not> token_at (''{id: '' @ ''{{'' @ ''data.id'' @ ''}}'' @ ''}'') i)"
  proof (intro conjI)
    show "\<forall>i<length ''{id: ''. \<not> token_at (''{id: '' @ ''{{'' @ ''data.id'' @ ''}}'' @ ''}'') i"
      by (rule no_token_list) code_simp
  qed simp_all
  have g: "''missing.path'' \<noteq> [] \<and> CHR ''}'' \<notin> set ''missing.path'' \<and>
     (\<forall>i<length ([]::string). \<not> token_at ([] @ ''{{'' @ ''missing.path'' @ ''}}'' @ []) i)"
    by simp
  have k: "''data.name'' \<noteq> [] \<and> CHR ''}'' \<notin> set ''data.name'' \<and>
     (\<forall>i<length ([]::string). \<not> token_at ([] @ ''{{'' @ ''data.name'' @ ''}}'' @ []) i)"
    by simp
  have n: "\<forall>i<length ''{id: }''. \<not> token_at ''{id: }'' i"
    by (rule no_token_list) code_simp
  have a: "(let val = getNestedValue bare_runtime
                        (JObj (lookup_object (js_values id_output))) (trim ''data.id'')
            in if val = JUndefined then ''{{'' @ ''data.id'' @ ''}}''
               else case js_String bare_runtime val of
                      None \<Rightarrow> ''{{'' @ ''data.id'' @ ''}}'' | Some s \<Rightarrow> s) = ''7''"
    by code_simp
  have b: "(let val = getNestedValue bare_runtime
                        (JObj (lookup_object (js_values named_output))) (trim ''missing.path'')
            in if val = JUndefined then ''{{'' @ ''missing.path'' @ ''}}''
               else case js_String bare_runtime val of
                      None \<Rightarrow> ''{{'' @ ''missing.path'' @ ''}}'' | Some s \<Rightarrow> s) =
           ''{{missing.path}}''"
    by code_simp
  have d: "(let val = getNestedValue bare_runtime
                        (JObj (lookup_object (js_values named_output))) (trim ''data.name'')
            in if val = JUndefined then ''{{'' @ ''data.name'' @ ''}}''
               else case js_String bare_runtime val of
                      None \<Rightarrow> ''{{'' @ ''data.name'' @ ''}}'' | Some s \<Rightarrow> s) = ''x''"
    by code_simp
  have c: "interpolateVariables bare_runtime ''}'' id_output = ''}''"
    "interpolateVariables bare_runtime [] named_output = []"
    by code_simp+
  from interpolateVariables_tokens[of "''data.id''" "''{id: ''" "''}''" bare_runtime id_output "[]"] h
  have 1: "interpolateVariables bare_runtime (''{id: '' @ ''{{'' @ ''data.id'' @ ''}}'' @ ''}'') id_output =
     ''{id: 7}''"
    by (simp only: a c) simp
  from interpolateVariables_tokens[of "''missing.path''" "[]" "[]" bare_runtime named_output "[]"] g
  have 2: "interpolateVariables bare_runtime ([] @ ''{{'' @ ''missing.path'' @ ''}}'' @ []) named_output =
     ''{{missing.path}}''"
    by (simp only: b c) simp
  from interpolateVariables_tokens[of "''data.name''" "[]" "[]" bare_runtime named_output "[]"] k
  have 4: "interpolateVariables bare_runtime ([] @ ''{{'' @ ''data.name'' @ ''}}'' @ []) named_output = ''x''"
    by (simp only: d c) simp
  from interpolateVariables_tokens[of "[]" "[]" "[]" bare_runtime id_output "''{id: }''"] n
  have 3: "interpolateVariables bare_runtime ''{id: }'' id_output = ''{id: }''" by blast
  from h 1 3 4 2 show ?thesis by (intro conjI) blast+
qed

text \<open>
  Claim C7, as stated, fails on the shape of the output: the payload of the response
  is stored under the key \<open>data\<close>, and the output has no property \<open>body\<close>.
\<close>

theorem api_output_has_no_body:
  "fst (executeApiNode serving_runtime (onLog silent) api_A empty_context ()) =
     Inr (JObj [(''status'', JNum 200), (''statusText'', JStr ''OK''),
                (''headers'', JObj []), (''data'', JObj [(''id'', JNum 7)])]) \<and>
   own_property
     (JObj [(''status'', JNum 200), (''statusText'', JStr ''OK''),
            (''headers'', JObj []), (''data'', JObj [(''id'', JNum 7)])]) ''body'' = None"
  by code_simp

text \<open>
  Claim C7, amended. For a node carrying an API configuration, and a log sink that
  returns normally, the result of \<open>executeApiNode\<close> is decided by the network layer
  alone, never by the status code: a network-level failure is the failure of the
  executor; a response whose payload \<open>JSON.stringify\<close> renders (any value but
  \<open>undefined\<close> or a function) gives the output with the keys \<open>status\<close>,
  \<open>statusText\<close>, \<open>headers\<close> and \<open>data\<close>.
\<close>

theorem executeApiNode_any_status:
  assumes "node_data node = ApiNodeData d" and "sink_returns onLog'"
  shows "fst (executeApiNode rt onLog' node context s) =
           (case transport rt (api_request rt d context) of
              Inl err \<Rightarrow> Inl err
            | Inr r \<Rightarrow>
                if stringify_undefined (resp_data r)
                then Inl (TypeError ''Cannot read properties of undefined (reading 'length')'')
                else Inr (JObj [(''status'', JNum (status r)),
                                (''statusText'', JStr (statusText r)),
                                (''headers'', resp_headers r),
                                (''data'', resp_data r)]))"
proof -
  have "validateStatus (api_request rt d context) code" for code
    by (simp add: api_request_def Let_def)
  then have "axios rt (api_request rt d context) = transport rt (api_request rt d context)"
    by (simp add: axios_def split: sum.splits)
  with assms(1) show ?thesis
    by (simp add: executeApiNode_quiet[OF assms(2)] split: sum.splits)
qed

theorem executeApiNode_any_status_witness:
  "node_data api_A =
     ApiNodeData \<lparr>method' = GET, url = ''http://example.org/item'', headers = [], body = [],
                  useCorsProxy = False\<rparr> \<and>
   fst (executeApiNode missing_runtime (onLog recording) api_A empty_context []) =
     Inr (JObj [(''status'', JNum 404), (''statusText'', JStr ''Not Found''),
                (''headers'', JObj []), (''data'', JStr ''missing'')]) \<and>
   fst (executeApiNode bare_runtime (onLog recording) api_A empty_context []) =
     Inl (AxiosError ''Network Error'')"
proof -
  have d: "node_data api_A =
     ApiNodeData \<lparr>method' = GET, url = ''http://example.org/item'', headers = [], body = [],
                  useCorsProxy = False\<rparr>"
    by (simp add: api_A_def)
  have q: "sink_returns (onLog recording)"
    by (simp add: sink_returns_def recording_def)
  have 1: "fst (executeApiNode missing_runtime (onLog recording) api_A empty_context []) =
     Inr (JObj [(''status'', JNum 404), (''statusText'', JStr ''Not Found''),
                (''headers'', JObj []), (''data'', JStr ''missing'')])"
    using executeApiNode_any_status[OF d q, of missing_runtime empty_context "[]"]
    by (simp add: missing_runtime_def not_found_response_def)
  have 2: "fst (executeApiNode bare_runtime (onLog recording) api_A empty_context []) =
     Inl (AxiosError ''Network Error'')"
    using executeApiNode_any_status[OF d q, of bare_runtime empty_context "[]"]
    by (simp add: bare_runtime_def)
  from d 1 2 show ?thesis by (intro conjI)
qed

text \<open>
  Claim C8 does not hold of the code. The function made by \<open>new Function\<close> sees the
  global scope, so in a host with a global \<open>setTimeout\<close>, an identifier outside the
  permitted set, \<open>safeEval\<close> returns the timer function instead of failing. The rest
  of the claim holds: \<open>data.length\<close> over \<open>[1,2,3]\<close> is \<open>3\<close>, and an identifier
  bound nowhere fails with an evaluation error.
\<close>

theorem safeEval_reaches_globals:
  "fst (safeEval browser_runtime ''setTimeout'' JNull) = Inr (JFun ''setTimeout'') \<and>
   ''setTimeout'' \<notin> set context_names \<and>
   fst (safeEval browser_runtime ''data.length'' (JArr [JNum 1, JNum 2, JNum 3])) = Inr (JNum 3) \<and>
   fst (safeEval browser_runtime ''window'' JNull) =
     Inl (Error ''Expression evaluation failed: window is not defined'')"
  by code_simp

end
